theory Spec2Isabelle
  imports Main
begin

section \<open>Collection format of query and header parameters\<close>

text \<open>
  The OpenAPI parameter object as \<open>buildData\<close> reads it: \<open>style\<close> and \<open>explode\<close> are
  optional (\<open>None\<close> is JavaScript's \<open>undefined\<close>, the operand of \<open>??\<close>).
\<close>

record spec_parameter =
  sp_style :: "string option"
  sp_explode :: "bool option"

text \<open>
  The object literal \<open>{ spaceDelimited: "ssv", pipeDelimited: "tsv", simple: "csv", form: "csv" }\<close>
  indexed by the style; \<open>None\<close> is a missing key.
\<close>

definition styleTable :: "string \<Rightarrow> string option" where
  "styleTable st =
     (if st = ''spaceDelimited'' then Some ''ssv''
      else if st = ''pipeDelimited'' then Some ''tsv''
      else if st = ''simple'' then Some ''csv''
      else if st = ''form'' then Some ''csv''
      else None)"

text \<open>
  The branch of the parameter loop of \<open>buildData\<close> that sets \<open>collectionFormat\<close>. The first
  argument is \<open>parameter.in\<close>, the second \<open>specParameter\<close> (\<open>None\<close> when the specification
  has no parameter of that name). The result is the value stored in
  \<open>parameter.collectionFormat\<close>, \<open>None\<close> when the field is left unset.
\<close>

definition collectionFormat :: "string \<Rightarrow> spec_parameter option \<Rightarrow> string option" where
  "collectionFormat pin specParameter =
     (if pin = ''body'' then None
      else if pin = ''query'' \<or> pin = ''header'' then
        (case specParameter of
           None \<Rightarrow> None
         | Some p \<Rightarrow>
             let style = (case sp_style p of
                            Some s \<Rightarrow> s
                          | None \<Rightarrow> if pin = ''query'' then ''form'' else ''simple'');
                 explode = (case sp_explode p of
                              Some b \<Rightarrow> b
                            | None \<Rightarrow> style = ''form'')
             in if pin = ''query''
                then Some (if explode then ''multi''
                           else (case styleTable style of Some f \<Rightarrow> f | None \<Rightarrow> ''multi''))
                else Some (if explode then ''multi'' else ''csv''))
      else None)"

section \<open>Writing the split files\<close>

text \<open>
  \<open>WriteFileConfig\<close> and \<open>SplitFile\<close>. Optional fields are options; \<open>shouldWrite\<close> is the
  value of \<open>!fs.existsSync(newFilePath) || config.overwrite\<close>, which is \<open>undefined\<close>
  (\<open>None\<close>) when the file exists and the configuration has no \<open>overwrite\<close> key.
\<close>

record WriteFileConfig =
  cfg_id :: "string option"
  cfg_dir :: string
  cfg_name :: string
  cfg_ext :: string
  cfg_overwrite :: "bool option"
  cfg_kebabCaseFileName :: "bool option"
  cfg_generateConditionallyId :: "string option"

record SplitFile =
  sf_contents :: string
  sf_pathRelativeToOutputPath :: string
  sf_config :: WriteFileConfig
  sf_shouldWrite :: "bool option"

text \<open>
  JavaScript's \<open>a || b\<close> for a boolean \<open>a\<close> and an optional boolean \<open>b\<close>, and the
  truthiness of an optional boolean.
\<close>

definition js_or :: "bool \<Rightarrow> bool option \<Rightarrow> bool option" where
  "js_or a b = (if a then Some True else b)"

definition truthy :: "bool option \<Rightarrow> bool" where
  "truthy b = (b = Some True)"

text \<open>
  The first loop of \<open>splitAndWriteFiles\<close>, from the parsed configuration and contents of
  each segment on. \<open>join\<close> is \<open>path.join\<close> and \<open>existsSync\<close> the file system as it is
  when the function is entered; the path tested is \<open>path.join(config.dir, newFileName)\<close>,
  as in the source.
\<close>

definition toSplitFile ::
  "(string \<Rightarrow> string \<Rightarrow> string) \<Rightarrow> (string \<Rightarrow> bool) \<Rightarrow> WriteFileConfig \<times> string \<Rightarrow> SplitFile" where
  "toSplitFile join existsSync seg =
     (let config = fst seg;
          newFileName = cfg_name config @ cfg_ext config;
          newFilePath = join (cfg_dir config) newFileName
      in \<lparr> sf_contents = snd seg,
           sf_pathRelativeToOutputPath = newFilePath,
           sf_config = config,
           sf_shouldWrite = js_or (\<not> existsSync newFilePath) (cfg_overwrite config) \<rparr>)"

text \<open>
  \<open>splitFilesById\<close>: \<open>Object.fromEntries\<close> over the files with a truthy (non-empty) id; a
  later entry replaces an earlier one with the same id.
\<close>

fun splitFilesById :: "SplitFile list \<Rightarrow> (string \<rightharpoonup> SplitFile)" where
  "splitFilesById [] = Map.empty"
| "splitFilesById (s # ss) =
     (case cfg_id (sf_config s) of
        None \<Rightarrow> splitFilesById ss
      | Some i \<Rightarrow> if i = [] then splitFilesById ss
                  else (case splitFilesById ss i of
                          Some t \<Rightarrow> splitFilesById ss
                        | None \<Rightarrow> (splitFilesById ss)(i \<mapsto> s)))"

text \<open>
  \<open>splitFilesById[config.generateConditionallyId ?? '']?.shouldWrite ?? true\<close>.
\<close>

definition conditionalShouldWrite :: "(string \<rightharpoonup> SplitFile) \<Rightarrow> WriteFileConfig \<Rightarrow> bool" where
  "conditionalShouldWrite byId config =
     (case byId (case cfg_generateConditionallyId config of Some i \<Rightarrow> i | None \<Rightarrow> []) of
        None \<Rightarrow> True
      | Some t \<Rightarrow> (case sf_shouldWrite t of None \<Rightarrow> True | Some b \<Rightarrow> b))"

text \<open>The test of the second loop: the file is written when this holds.\<close>

definition isWritten :: "(string \<rightharpoonup> SplitFile) \<Rightarrow> SplitFile \<Rightarrow> bool" where
  "isWritten byId s = (truthy (sf_shouldWrite s) \<and> conditionalShouldWrite byId (sf_config s))"

text \<open>
  The effects of \<open>splitAndWriteFiles\<close>: the calls of \<open>fs.writeFileSync\<close> for the split files,
  in order, as pairs of path and contents, and the lines of the manifest.
\<close>

record write_result =
  wr_written :: "(string \<times> string) list"
  wr_manifest :: "string list"

definition splitAndWriteFiles ::
  "(string \<Rightarrow> string \<Rightarrow> string) \<Rightarrow> (string \<Rightarrow> bool) \<Rightarrow> (WriteFileConfig \<times> string) list \<Rightarrow> string
     \<Rightarrow> write_result" where
  "splitAndWriteFiles join existsSync segs outputPath =
     (let splitFiles = map (toSplitFile join existsSync) segs;
          byId = splitFilesById splitFiles;
          toWrite = filter (isWritten byId) splitFiles
      in \<lparr> wr_written = map (\<lambda>s. (join outputPath (sf_pathRelativeToOutputPath s), sf_contents s)) toWrite,
           wr_manifest = map sf_pathRelativeToOutputPath
                           (filter (\<lambda>s. truthy (cfg_overwrite (sf_config s))) toWrite) \<rparr>)"


text \<open>Three segments that condition one another in a chain, and a \<open>path.join\<close> for plain names.\<close>

definition joinSlash :: "string \<Rightarrow> string \<Rightarrow> string" where
  "joinSlash d n = d @ ''/'' @ n"

definition segC :: "WriteFileConfig \<times> string" where
  "segC = (\<lparr>cfg_id = Some ''c'', cfg_dir = ''src'', cfg_name = ''c'', cfg_ext = ''.ts'',
            cfg_overwrite = Some False, cfg_kebabCaseFileName = None,
            cfg_generateConditionallyId = None\<rparr>, ''C'')"

definition segB :: "WriteFileConfig \<times> string" where
  "segB = (\<lparr>cfg_id = Some ''b'', cfg_dir = ''src'', cfg_name = ''b'', cfg_ext = ''.ts'',
            cfg_overwrite = Some False, cfg_kebabCaseFileName = None,
            cfg_generateConditionallyId = Some ''c''\<rparr>, ''B'')"

definition segA :: "WriteFileConfig \<times> string" where
  "segA = (\<lparr>cfg_id = None, cfg_dir = ''src'', cfg_name = ''a'', cfg_ext = ''.ts'',
            cfg_overwrite = Some False, cfg_kebabCaseFileName = None,
            cfg_generateConditionallyId = Some ''b''\<rparr>, ''A'')"

text \<open>A segment without an \<open>overwrite\<close> key, and one conditioned on it.\<close>

definition segNoOverwrite :: "WriteFileConfig \<times> string" where
  "segNoOverwrite = (\<lparr>cfg_id = Some ''c'', cfg_dir = ''src'', cfg_name = ''c'', cfg_ext = ''.ts'',
            cfg_overwrite = None, cfg_kebabCaseFileName = None,
            cfg_generateConditionallyId = None\<rparr>, ''C'')"

definition segOnNoOverwrite :: "WriteFileConfig \<times> string" where
  "segOnNoOverwrite = (\<lparr>cfg_id = None, cfg_dir = ''src'', cfg_name = ''d'', cfg_ext = ''.ts'',
            cfg_overwrite = Some False, cfg_kebabCaseFileName = None,
            cfg_generateConditionallyId = Some ''c''\<rparr>, ''D'')"

section \<open>Name projection\<close>

text \<open>
  Strings are lists of ASCII characters. The character classes of the regular expressions
  of \<open>snakeCase\<close>: \<open>[A-Z]\<close>, \<open>[a-z]\<close>, \<open>\d\<close> and, on ASCII, \<open>\s\<close>.
\<close>

definition isUpperAZ :: "char \<Rightarrow> bool" where
  "isUpperAZ c = (65 \<le> (of_char c :: nat) \<and> (of_char c :: nat) \<le> 90)"

definition isLowerAZ :: "char \<Rightarrow> bool" where
  "isLowerAZ c = (97 \<le> (of_char c :: nat) \<and> (of_char c :: nat) \<le> 122)"

definition isDigit :: "char \<Rightarrow> bool" where
  "isDigit c = (48 \<le> (of_char c :: nat) \<and> (of_char c :: nat) \<le> 57)"

definition isSpace :: "char \<Rightarrow> bool" where
  "isSpace c = ((of_char c :: nat) = 32 \<or> (9 \<le> (of_char c :: nat) \<and> (of_char c :: nat) \<le> 13))"

definition toLowerChar :: "char \<Rightarrow> char" where
  "toLowerChar c = (if isUpperAZ c then char_of ((of_char c :: nat) + 32) else c)"

definition toUpperChar :: "char \<Rightarrow> char" where
  "toUpperChar c = (if isLowerAZ c then char_of ((of_char c :: nat) - 32) else c)"

definition toLowerCase :: "string \<Rightarrow> string" where
  "toLowerCase s = map toLowerChar s"

text \<open>\<open>.replace(/\./g, '/')\<close> and \<open>.replace(/\$/g, '__')\<close>.\<close>

definition replaceDots :: "string \<Rightarrow> string" where
  "replaceDots s = map (\<lambda>c. if c = CHR ''.'' then CHR ''/'' else c) s"

definition replaceDollars :: "string \<Rightarrow> string" where
  "replaceDollars s = concat (map (\<lambda>c. if c = CHR ''$'' then ''__'' else [c]) s)"

text \<open>
  \<open>.replace(/([A-Z]+)([A-Z][a-z][a-z]+)/g, (_match, g1, g2) => `${g1}_${g2}`)\<close>.
  At a position the expression matches exactly when the longest run of capitals that
  starts there has at least two letters and is followed by at least two lower-case
  letters: the greedy first group gives back its last capital to the second group, and a
  shorter first group would leave a capital where the second group needs \<open>[a-z]\<close>. The
  match is the run and all the lower-case letters after it, and the search goes on behind
  the match. Where there is no match the search moves one character on.
\<close>

function sepAcronym :: "string \<Rightarrow> string" where
  "sepAcronym [] = []"
| "sepAcronym (c # cs) =
     (if 2 \<le> length (takeWhile isUpperAZ (c # cs))
         \<and> 2 \<le> length (takeWhile isLowerAZ (dropWhile isUpperAZ (c # cs)))
      then butlast (takeWhile isUpperAZ (c # cs))
           @ CHR ''_'' # last (takeWhile isUpperAZ (c # cs))
           # takeWhile isLowerAZ (dropWhile isUpperAZ (c # cs))
           @ sepAcronym (dropWhile isLowerAZ (dropWhile isUpperAZ (c # cs)))
      else c # sepAcronym cs)"
  by pat_completeness auto
termination
proof (relation "measure length")
  show "wf (measure length)" by simp
next
  fix c :: char and cs :: string
  assume "2 \<le> length (takeWhile isUpperAZ (c # cs))
          \<and> 2 \<le> length (takeWhile isLowerAZ (dropWhile isUpperAZ (c # cs)))"
  then have "isUpperAZ c" by (auto split: if_splits)
  then have "length (dropWhile isUpperAZ (c # cs)) \<le> length cs"
    by (simp add: length_dropWhile_le)
  moreover have "length (dropWhile isLowerAZ (dropWhile isUpperAZ (c # cs)))
                 \<le> length (dropWhile isUpperAZ (c # cs))"
    by (rule length_dropWhile_le)
  ultimately show "(dropWhile isLowerAZ (dropWhile isUpperAZ (c # cs)), c # cs) \<in> measure length"
    by simp
next
  fix c :: char and cs :: string
  show "(cs, c # cs) \<in> measure length" by simp
qed

text \<open>
  \<open>.replace(/([a-z\d])([A-Z])/g, (_match, g1, g2) => `${g1}_${g2}`)\<close>: a match takes two
  characters and the search goes on behind them.
\<close>

fun sepLowerUpper :: "string \<Rightarrow> string" where
  "sepLowerUpper (a # b # cs) =
     (if (isLowerAZ a \<or> isDigit a) \<and> isUpperAZ b
      then a # CHR ''_'' # b # sepLowerUpper cs
      else a # sepLowerUpper (b # cs))"
| "sepLowerUpper cs = cs"

text \<open>\<open>.replace(/[-\s]/g, '_')\<close>.\<close>

definition replaceDashSpace :: "string \<Rightarrow> string" where
  "replaceDashSpace s = map (\<lambda>c. if c = CHR ''-'' \<or> isSpace c then CHR ''_'' else c) s"

definition snakeCase :: "string \<Rightarrow> string" where
  "snakeCase str =
     toLowerCase (replaceDashSpace (sepLowerUpper (sepAcronym (replaceDollars (replaceDots str)))))"

text \<open>
  A place where a string can be cut without changing what the acronym expression matches on
  either side: no match contains the two characters next to the cut side by side.
\<close>

definition splitsAt :: "string \<Rightarrow> string \<Rightarrow> bool" where
  "splitsAt xs ys = (xs = [] \<or> ys = [] \<or>
      (\<not> (isUpperAZ (last xs) \<and> (isUpperAZ (hd ys) \<or> isLowerAZ (hd ys)))
       \<and> \<not> (isLowerAZ (last xs) \<and> isLowerAZ (hd ys))))"

text \<open>
  \<open>_upperFirst\<close> and \<open>_camelCase\<close> of lodash, on ASCII strings. \<open>camelCase\<close> removes
  apostrophes, splits the string into words with \<open>words\<close>, lower-cases the words and
  capitalises all but the first. \<open>words\<close> uses \<open>asciiWords\<close> unless \<open>hasUnicodeWord\<close> finds a
  lower-case letter before a capital, two capitals before a lower-case letter, a digit next
  to a letter, or a character that is neither a letter, a digit nor a space; then it uses
  \<open>unicodeWords\<close>.
\<close>

definition upperFirst :: "string \<Rightarrow> string" where
  "upperFirst s = (case s of [] \<Rightarrow> [] | c # cs \<Rightarrow> toUpperChar c # cs)"

definition isLetter :: "char \<Rightarrow> bool" where
  "isLetter c = (isUpperAZ c \<or> isLowerAZ c)"

text \<open>\<open>/[a-z][A-Z]|[A-Z]{2}[a-z]|[0-9][a-zA-Z]|[a-zA-Z][0-9]|[^a-zA-Z0-9 ]/\<close>.\<close>

fun hasUnicodeWord :: "string \<Rightarrow> bool" where
  "hasUnicodeWord [] = False"
| "hasUnicodeWord (c # cs) =
     ((\<not> isLetter c \<and> \<not> isDigit c \<and> c \<noteq> CHR '' '')
      \<or> (case cs of
            [] \<Rightarrow> False
          | d # ds \<Rightarrow>
              (isLowerAZ c \<and> isUpperAZ d) \<or> (isDigit c \<and> isLetter d) \<or> (isLetter c \<and> isDigit d)
              \<or> (isUpperAZ c \<and> isUpperAZ d \<and> (case ds of [] \<Rightarrow> False | e # es \<Rightarrow> isLowerAZ e)))
      \<or> hasUnicodeWord cs)"

text \<open>\<open>/[^\x00-\x2f\x3a-\x40\x5b-\x60\x7b-\x7f]+/g\<close>: the runs of letters and digits.\<close>

definition isAsciiWordChar :: "char \<Rightarrow> bool" where
  "isAsciiWordChar c =
     (\<not> ((of_char c :: nat) \<le> 47 \<or> (58 \<le> (of_char c :: nat) \<and> (of_char c :: nat) \<le> 64)
         \<or> (91 \<le> (of_char c :: nat) \<and> (of_char c :: nat) \<le> 96)
         \<or> (123 \<le> (of_char c :: nat) \<and> (of_char c :: nat) \<le> 127)))"

function asciiWords :: "string \<Rightarrow> string list" where
  "asciiWords [] = []"
| "asciiWords (c # cs) =
     (if isAsciiWordChar c
      then (c # takeWhile isAsciiWordChar cs) # asciiWords (dropWhile isAsciiWordChar cs)
      else asciiWords cs)"
  by pat_completeness auto
termination asciiWords
proof (relation "measure length")
  show "wf (measure length)" by simp
next
  fix c :: char and cs :: string
  show "(dropWhile isAsciiWordChar cs, c # cs) \<in> measure length"
    by (simp add: length_dropWhile_le le_imp_less_Suc)
next
  fix c :: char and cs :: string
  show "(cs, c # cs) \<in> measure length" by simp
qed

text \<open>
  The ordinals of \<open>unicodeWords\<close>,
  \<open>\d*(?:1st|2nd|3rd|(?![123])\dth)(?=\b|[A-Z_])\<close> and the same in capitals with
  \<open>(?=\b|[a-z_])\<close>: after a run of digits come the two letters that belong to its last
  digit, and behind them the string ends or goes on with a character that is neither a
  digit nor a letter of the same case. \<open>isOrdinal u d rest\<close> tests what comes after a run
  that ends in the digit \<open>d\<close>, for the ordinals in capitals when \<open>u\<close> holds.
\<close>

definition ordinalSuffix :: "char \<Rightarrow> string" where
  "ordinalSuffix d =
     (if d = CHR ''1'' then ''st'' else if d = CHR ''2'' then ''nd''
      else if d = CHR ''3'' then ''rd'' else ''th'')"

definition isOrdinal :: "bool \<Rightarrow> char \<Rightarrow> string \<Rightarrow> bool" where
  "isOrdinal u d rest =
     (take 2 rest = (if u then map toUpperChar (ordinalSuffix d) else ordinalSuffix d)
      \<and> (case drop 2 rest of
            [] \<Rightarrow> True
          | x # xs \<Rightarrow> \<not> isDigit x \<and> \<not> (if u then isUpperAZ x else isLowerAZ x)))"

text \<open>
  \<open>unicodeWords\<close> on an ASCII string without apostrophes. At a position the alternatives
  of the expression are tried in their order; what they match there is: a run of lower-case
  letters with at most one capital before it; a run of capitals, without its last letter
  when a lower-case letter follows the run; a run of digits, with the two letters of an
  ordinal when they follow. Every other character is passed over.
\<close>

function unicodeWords :: "string \<Rightarrow> string list" where
  "unicodeWords [] = []"
| "unicodeWords (c # cs) =
     (if isLowerAZ c \<or> (isUpperAZ c \<and> cs \<noteq> [] \<and> isLowerAZ (hd cs))
      then (c # takeWhile isLowerAZ cs) # unicodeWords (dropWhile isLowerAZ cs)
      else if isUpperAZ c then
        (if dropWhile isUpperAZ cs \<noteq> [] \<and> isLowerAZ (hd (dropWhile isUpperAZ cs))
         then (c # butlast (takeWhile isUpperAZ cs))
              # unicodeWords (last (takeWhile isUpperAZ cs) # dropWhile isUpperAZ cs)
         else (c # takeWhile isUpperAZ cs) # unicodeWords (dropWhile isUpperAZ cs))
      else if isDigit c then
        (if isOrdinal True (last (c # takeWhile isDigit cs)) (dropWhile isDigit cs)
            \<or> isOrdinal False (last (c # takeWhile isDigit cs)) (dropWhile isDigit cs)
         then (c # takeWhile isDigit cs @ take 2 (dropWhile isDigit cs))
              # unicodeWords (drop 2 (dropWhile isDigit cs))
         else (c # takeWhile isDigit cs) # unicodeWords (dropWhile isDigit cs))
      else unicodeWords cs)"
  by pat_completeness auto
termination unicodeWords
proof (relation "measure length")
  show "wf (measure length)" by simp
next
  fix c :: char and cs :: string
  show "(dropWhile isLowerAZ cs, c # cs) \<in> measure length"
    by (simp add: length_dropWhile_le le_imp_less_Suc)
next
  fix c :: char and cs :: string
  assume a: "\<not> (isLowerAZ c \<or> isUpperAZ c \<and> cs \<noteq> [] \<and> isLowerAZ (hd cs))" "isUpperAZ c"
    and b: "dropWhile isUpperAZ cs \<noteq> [] \<and> isLowerAZ (hd (dropWhile isUpperAZ cs))"
  have "takeWhile isUpperAZ cs \<noteq> []"
  proof
    assume e: "takeWhile isUpperAZ cs = []"
    then have "dropWhile isUpperAZ cs = cs"
      by (metis takeWhile_dropWhile_id append_Nil)
    with a b show False by auto
  qed
  then have "0 < length (takeWhile isUpperAZ cs)" by simp
  moreover have "length (takeWhile isUpperAZ cs) + length (dropWhile isUpperAZ cs) = length cs"
    by (metis length_append takeWhile_dropWhile_id)
  ultimately have "length (dropWhile isUpperAZ cs) < length cs" by linarith
  then show "(last (takeWhile isUpperAZ cs) # dropWhile isUpperAZ cs, c # cs) \<in> measure length"
    by simp
next
  fix c :: char and cs :: string
  show "(dropWhile isUpperAZ cs, c # cs) \<in> measure length"
    by (simp add: length_dropWhile_le le_imp_less_Suc)
next
  fix c :: char and cs :: string
  have "length (drop 2 (dropWhile isDigit cs)) \<le> length (dropWhile isDigit cs)" by simp
  also have "\<dots> \<le> length cs" by (rule length_dropWhile_le)
  finally show "(drop 2 (dropWhile isDigit cs), c # cs) \<in> measure length" by simp
next
  fix c :: char and cs :: string
  show "(dropWhile isDigit cs, c # cs) \<in> measure length"
    by (simp add: length_dropWhile_le le_imp_less_Suc)
next
  fix c :: char and cs :: string
  show "(cs, c # cs) \<in> measure length" by simp
qed

definition lodashWords :: "string \<Rightarrow> string list" where
  "lodashWords s = (if hasUnicodeWord s then unicodeWords s else asciiWords s)"

definition capitalize :: "string \<Rightarrow> string" where
  "capitalize w = upperFirst (toLowerCase w)"

definition camelCase :: "string \<Rightarrow> string" where
  "camelCase s =
     (case lodashWords (filter (\<lambda>c. c \<noteq> CHR 0x27) s) of
        [] \<Rightarrow> []
      | w # ws \<Rightarrow> toLowerCase w @ concat (map capitalize ws))"

definition PYTHON_KEYWORDS :: "string list" where
  "PYTHON_KEYWORDS =
     [''all_params'', ''resource_path'', ''path_params'', ''query_params'',
      ''header_params'', ''form_params'', ''local_var_files'', ''body_params'', ''auth_settings'',
      ''property'',
      ''schema'', ''base64'', ''json'',
      ''date'', ''float'',
      ''and'', ''del'', ''from'', ''not'', ''while'', ''as'', ''elif'', ''global'', ''or'', ''with'',
      ''assert'', ''else'', ''if'', ''pass'', ''yield'', ''break'', ''except'', ''import'',
      ''print'', ''class'', ''exec'', ''in'', ''raise'', ''continue'', ''finally'', ''is'',
      ''return'', ''def'', ''for'', ''lambda'', ''try'', ''self'', ''nonlocal'', ''None'', ''True'',
      ''False'', ''async'', ''await'']"

datatype named_entity = Model | Property | Operation

definition startsWithUnderscore :: "string \<Rightarrow> bool" where
  "startsWithUnderscore name = (case name of [] \<Rightarrow> False | c # cs \<Rightarrow> c = CHR ''_'')"

definition toPythonName :: "named_entity \<Rightarrow> string \<Rightarrow> string" where
  "toPythonName namedEntity name =
     (let nameSnakeCase = snakeCase name in
      if (if startsWithUnderscore name then drop 1 name else name) \<in> set PYTHON_KEYWORDS
      then (let nameSuffix = (if startsWithUnderscore name then nameSnakeCase
                              else CHR ''_'' # nameSnakeCase)
            in case namedEntity of
                 Model \<Rightarrow> ''model'' @ nameSuffix
               | Operation \<Rightarrow> ''call'' @ nameSuffix
               | Property \<Rightarrow> ''var'' @ nameSnakeCase)
      else nameSnakeCase)"

definition JAVA_KEYWORDS :: "string list" where
  "JAVA_KEYWORDS =
     [''object'', ''list'', ''file'',
      ''localVarPath'', ''localVarQueryParams'', ''localVarCollectionQueryParams'',
      ''localVarHeaderParams'', ''localVarCookieParams'', ''localVarFormParams'', ''localVarPostBody'',
      ''localVarAccepts'', ''localVarAccept'', ''localVarContentTypes'',
      ''localVarContentType'', ''localVarAuthNames'', ''localReturnType'',
      ''ApiClient'', ''ApiException'', ''ApiResponse'', ''Configuration'', ''StringUtil'',
      ''_'', ''abstract'', ''continue'', ''for'', ''new'', ''switch'', ''assert'',
      ''default'', ''if'', ''package'', ''synchronized'', ''boolean'', ''do'', ''goto'', ''private'',
      ''this'', ''break'', ''double'', ''implements'', ''protected'', ''throw'', ''byte'', ''else'',
      ''import'', ''public'', ''throws'', ''case'', ''enum'', ''instanceof'', ''return'', ''transient'',
      ''catch'', ''extends'', ''int'', ''short'', ''try'', ''char'', ''final'', ''interface'', ''static'',
      ''void'', ''class'', ''finally'', ''long'', ''strictfp'', ''volatile'', ''const'', ''float'',
      ''native'', ''super'', ''while'', ''null'', ''offsetdatetime'', ''localdate'', ''localtime'']"

definition toJavaName :: "string \<Rightarrow> string" where
  "toJavaName name =
     (let unescapedName = camelCase (if startsWithUnderscore name then drop 1 name else name) in
      if unescapedName \<in> set JAVA_KEYWORDS
      then (if unescapedName = ''class'' then ''propertyClass'' else CHR ''_'' # unescapedName)
      else unescapedName)"


section \<open>Properties of the collection format\<close>

text \<open>
  Claim C9. A query parameter gets \<open>multi\<close> when \<open>explode\<close> is true; otherwise the style
  decides: \<open>spaceDelimited\<close> gives \<open>ssv\<close>, \<open>pipeDelimited\<close> gives \<open>tsv\<close>, \<open>simple\<close> and
  \<open>form\<close> give \<open>csv\<close>. A missing style counts as \<open>form\<close> for a query parameter and as
  \<open>simple\<close> for a header parameter, and a missing \<open>explode\<close> counts as true exactly when
  the style is \<open>form\<close>. A header parameter gets \<open>multi\<close> when exploded and \<open>csv\<close>
  otherwise.
\<close>

theorem collectionFormat_table:
  "collectionFormat ''query'' (Some \<lparr>sp_style = st, sp_explode = Some True\<rparr>) = Some ''multi''
   \<and> collectionFormat ''query'' (Some \<lparr>sp_style = Some ''spaceDelimited'', sp_explode = Some False\<rparr>) = Some ''ssv''
   \<and> collectionFormat ''query'' (Some \<lparr>sp_style = Some ''pipeDelimited'', sp_explode = Some False\<rparr>) = Some ''tsv''
   \<and> collectionFormat ''query'' (Some \<lparr>sp_style = Some ''simple'', sp_explode = Some False\<rparr>) = Some ''csv''
   \<and> collectionFormat ''query'' (Some \<lparr>sp_style = Some ''form'', sp_explode = Some False\<rparr>) = Some ''csv''
   \<and> collectionFormat ''query'' (Some \<lparr>sp_style = None, sp_explode = e\<rparr>)
       = collectionFormat ''query'' (Some \<lparr>sp_style = Some ''form'', sp_explode = e\<rparr>)
   \<and> collectionFormat ''header'' (Some \<lparr>sp_style = None, sp_explode = e\<rparr>)
       = collectionFormat ''header'' (Some \<lparr>sp_style = Some ''simple'', sp_explode = e\<rparr>)
   \<and> collectionFormat ''query'' (Some \<lparr>sp_style = Some s, sp_explode = None\<rparr>)
       = collectionFormat ''query'' (Some \<lparr>sp_style = Some s, sp_explode = Some (s = ''form'')\<rparr>)
   \<and> collectionFormat ''header'' (Some \<lparr>sp_style = Some s, sp_explode = None\<rparr>)
       = collectionFormat ''header'' (Some \<lparr>sp_style = Some s, sp_explode = Some (s = ''form'')\<rparr>)
   \<and> collectionFormat ''header'' (Some \<lparr>sp_style = st, sp_explode = Some b\<rparr>)
       = Some (if b then ''multi'' else ''csv'')
   \<and> collectionFormat ''query'' (Some \<lparr>sp_style = Some ''spaceDelimited'', sp_explode = Some True\<rparr>) = Some ''multi''"
  by (simp add: collectionFormat_def styleTable_def Let_def split: option.split)

theorem collectionFormat_table_witness:
  "collectionFormat ''query'' (Some \<lparr>sp_style = None, sp_explode = None\<rparr>) = Some ''multi''
   \<and> collectionFormat ''header'' (Some \<lparr>sp_style = None, sp_explode = None\<rparr>) = Some ''csv''
   \<and> collectionFormat ''query'' (Some \<lparr>sp_style = Some ''pipeDelimited'', sp_explode = None\<rparr>) = Some ''tsv''"
  using collectionFormat_table [of None None "''pipeDelimited''" False]
  by (simp add: collectionFormat_def styleTable_def)

section \<open>Properties of the file writer\<close>

text \<open>
  Claim C10 on a chain of conditions. The file \<open>src/c.ts\<close> exists, under the output path
  and under the working directory alike, and \<open>c\<close> does not overwrite, so \<open>c\<close> is not
  written; \<open>b\<close> is generated on condition of \<open>c\<close> and is not written either; \<open>a\<close> is
  generated on condition of \<open>b\<close>. The claim, like the comment at \<open>generateConditionallyId\<close>
  (whether we generated the file with the given id), has \<open>a\<close> left out. The function
  writes \<open>a\<close>, and nothing else: it asks for the flag \<open>shouldWrite\<close> of \<open>b\<close>, which says that
  the file of \<open>b\<close> did not exist, not whether \<open>b\<close> was written.
\<close>

theorem splitAndWriteFiles_chain:
  "wr_written (splitAndWriteFiles joinSlash (\<lambda>p. p = ''src/c.ts'' \<or> p = ''out/src/c.ts'')
      [segC, segB, segA] ''out'') = [(''out/src/a.ts'', ''A'')]
   \<and> cfg_generateConditionallyId (fst segA) = Some ''b''
   \<and> cfg_id (fst segB) = Some ''b''
   \<and> cfg_generateConditionallyId (fst segB) = Some ''c''
   \<and> cfg_id (fst segC) = Some ''c''"
  by (simp add: splitAndWriteFiles_def toSplitFile_def segA_def segB_def segC_def joinSlash_def
       isWritten_def truthy_def conditionalShouldWrite_def js_or_def Let_def)

text \<open>
  With no \<open>overwrite\<close> key the flag of an existing file is \<open>undefined\<close>, which \<open>??\<close> turns
  into \<open>true\<close>: the file conditioned on it is written although the file it names is not.
\<close>

lemma splitAndWriteFiles_missing_overwrite:
  "wr_written (splitAndWriteFiles joinSlash (\<lambda>p. p = ''src/c.ts'' \<or> p = ''out/src/c.ts'')
      [segNoOverwrite, segOnNoOverwrite] ''out'') = [(''out/src/d.ts'', ''D'')]"
  by (simp add: splitAndWriteFiles_def toSplitFile_def segNoOverwrite_def segOnNoOverwrite_def
       joinSlash_def isWritten_def truthy_def conditionalShouldWrite_def js_or_def Let_def)

section \<open>Properties of the name projection\<close>

lemma toLowerChar_not_upper: "\<not> isUpperAZ (toLowerChar c)"
  by (auto simp: toLowerChar_def isUpperAZ_def)

lemma snakeCase_lower: "list_all (\<lambda>c. \<not> isUpperAZ c) (snakeCase s)"
  by (simp add: snakeCase_def toLowerCase_def list_all_iff toLowerChar_not_upper)

lemma upper_not_lowdig: "isUpperAZ c \<Longrightarrow> \<not> isLowerAZ c \<and> \<not> isDigit c"
  by (auto simp: isUpperAZ_def isLowerAZ_def isDigit_def)

lemma sepLowerUpper_Cons:
  "sepLowerUpper (a # b # cs)
   = a # (if (isLowerAZ a \<or> isDigit a) \<and> isUpperAZ b then ''_'' else []) @ sepLowerUpper (b # cs)"
proof (cases "(isLowerAZ a \<or> isDigit a) \<and> isUpperAZ b")
  case True
  then have "sepLowerUpper (b # cs) = b # sepLowerUpper cs"
    by (cases cs) (auto dest: upper_not_lowdig)
  with True show ?thesis by simp
next
  case False
  then show ?thesis by auto
qed

lemma sepLowerUpper_append:
  "sepLowerUpper (xs @ ys)
   = sepLowerUpper xs
     @ (if xs \<noteq> [] \<and> ys \<noteq> [] \<and> (isLowerAZ (last xs) \<or> isDigit (last xs)) \<and> isUpperAZ (hd ys)
        then ''_'' else [])
     @ sepLowerUpper ys"
proof (induction xs)
  case Nil
  then show ?case by simp
next
  case (Cons a xs)
  show ?case
  proof (cases xs)
    case Nil
    then show ?thesis
      by (cases ys) (simp_all add: sepLowerUpper_Cons del: sepLowerUpper.simps(1))
  next
    case (Cons b xs')
    then show ?thesis
      using Cons.IH by (simp add: sepLowerUpper_Cons del: sepLowerUpper.simps(1))
  qed
qed

lemma sepAcronym_Nil_iff: "sepAcronym xs = [] \<longleftrightarrow> xs = []"
  by (cases xs) auto

lemma sepAcronym_hd: "hd (sepAcronym xs) = hd xs"
proof (cases xs)
  case Nil
  then show ?thesis by simp
next
  case (Cons c cs)
  show ?thesis
  proof (cases "2 \<le> length (takeWhile isUpperAZ (c # cs))")
    case True
    then have "isUpperAZ c" by (auto split: if_splits)
    with True have "butlast (takeWhile isUpperAZ (c # cs)) = c # butlast (takeWhile isUpperAZ cs)"
      by (auto split: if_splits)
    then show ?thesis unfolding Cons by (simp del: takeWhile.simps dropWhile.simps)
  next
    case False
    then show ?thesis unfolding Cons by (simp del: takeWhile.simps dropWhile.simps)
  qed
qed


lemma last_dropWhile: "dropWhile P xs \<noteq> [] \<Longrightarrow> last (dropWhile P xs) = last xs"
  by (metis last_appendR takeWhile_dropWhile_id)

lemma takeWhile_hd_Nil: "ys \<noteq> [] \<Longrightarrow> \<not> P (hd ys) \<Longrightarrow> takeWhile P ys = []"
  by (cases ys) auto

lemma dropWhile_hd_id: "ys \<noteq> [] \<Longrightarrow> \<not> P (hd ys) \<Longrightarrow> dropWhile P ys = ys"
  by (cases ys) auto

lemma while_all_append:
  "\<forall>x\<in>set xs. P x \<Longrightarrow> ys \<noteq> [] \<Longrightarrow> \<not> P (hd ys)
   \<Longrightarrow> takeWhile P (xs @ ys) = xs \<and> dropWhile P (xs @ ys) = ys"
  by (induction xs) (auto simp: takeWhile_hd_Nil dropWhile_hd_id)

lemma while_all: "\<forall>x\<in>set xs. P x \<Longrightarrow> takeWhile P xs = xs \<and> dropWhile P xs = []"
  by simp

lemma while_some_append:
  "\<not> (\<forall>x\<in>set xs. P x)
   \<Longrightarrow> takeWhile P (xs @ ys) = takeWhile P xs \<and> dropWhile P (xs @ ys) = dropWhile P xs @ ys"
  by (induction xs) auto

lemma sepAcronym_then:
  "2 \<le> length (takeWhile isUpperAZ (c # cs))
     \<and> 2 \<le> length (takeWhile isLowerAZ (dropWhile isUpperAZ (c # cs)))
   \<Longrightarrow> sepAcronym (c # cs) =
       butlast (takeWhile isUpperAZ (c # cs))
           @ CHR ''_'' # last (takeWhile isUpperAZ (c # cs))
           # takeWhile isLowerAZ (dropWhile isUpperAZ (c # cs))
           @ sepAcronym (dropWhile isLowerAZ (dropWhile isUpperAZ (c # cs)))"
  by (subst sepAcronym.simps(2)) (rule if_P)

lemma sepAcronym_else:
  "\<not> (2 \<le> length (takeWhile isUpperAZ (c # cs))
     \<and> 2 \<le> length (takeWhile isLowerAZ (dropWhile isUpperAZ (c # cs))))
   \<Longrightarrow> sepAcronym (c # cs) = c # sepAcronym cs"
  by (subst sepAcronym.simps(2)) (rule if_not_P)

lemma sepAcronym_append:
  "splitsAt xs ys \<Longrightarrow> sepAcronym (xs @ ys) = sepAcronym xs @ sepAcronym ys"
proof (induction xs rule: sepAcronym.induct)
  case 1
  then show ?case by simp
next
  case (2 c cs)
  let ?X = "c # cs"
  let ?W = "c # cs @ ys"
  let ?cond = "2 \<le> length (takeWhile isUpperAZ ?X)
               \<and> 2 \<le> length (takeWhile isLowerAZ (dropWhile isUpperAZ ?X))"
  let ?condW = "2 \<le> length (takeWhile isUpperAZ ?W)
               \<and> 2 \<le> length (takeWhile isLowerAZ (dropWhile isUpperAZ ?W))"
  note [simp del] = takeWhile.simps(2) dropWhile.simps(2) sepAcronym.simps(2)
  have goal_eq: "sepAcronym (?X @ ys) = sepAcronym ?W" by simp
  show ?case
  proof (cases "ys = []")
    case True
    then show ?thesis by simp
  next
    case ys: False
    from "2.prems" ys have b1: "\<not> (isUpperAZ (last ?X) \<and> (isUpperAZ (hd ys) \<or> isLowerAZ (hd ys)))"
      and b2: "\<not> (isLowerAZ (last ?X) \<and> isLowerAZ (hd ys))"
      by (auto simp: splitsAt_def)
    have tail: "splitsAt cs ys"
      using b1 b2 by (auto simp: splitsAt_def)
    have elseX: "\<not> ?cond \<Longrightarrow> sepAcronym (cs @ ys) = sepAcronym cs @ sepAcronym ys"
      using "2.IH"(2) tail by blast
    have elseBoth: "sepAcronym ?W = sepAcronym ?X @ sepAcronym ys" if "\<not> ?cond" "\<not> ?condW"
    proof -
      have "sepAcronym ?W = c # sepAcronym (cs @ ys)"
        using that(2) by (rule sepAcronym_else)
      moreover have "sepAcronym ?X = c # sepAcronym cs"
        using that(1) by (rule sepAcronym_else)
      ultimately show ?thesis using elseX [OF that(1)] by simp
    qed
    show ?thesis
    proof (cases "\<forall>x\<in>set ?X. isUpperAZ x")
      case allU: True
      then have "isUpperAZ (last ?X)" by (metis last_in_set list.distinct(1))
      with b1 have nU: "\<not> isUpperAZ (hd ys)" and nL: "\<not> isLowerAZ (hd ys)" by auto
      have dw: "dropWhile isUpperAZ ?W = ys"
        using while_all_append [of ?X isUpperAZ ys, OF allU ys nU] by simp
      have dwX: "dropWhile isUpperAZ ?X = []"
        using while_all [of ?X isUpperAZ, OF allU] by simp
      have nc: "\<not> ?cond" by (simp add: dwX)
      have ncW: "\<not> ?condW"
        unfolding dw using takeWhile_hd_Nil [of ys isLowerAZ, OF ys nL] by simp
      show ?thesis using elseBoth [OF nc ncW] by simp
    next
      case notU: False
      have tw: "takeWhile isUpperAZ ?W = takeWhile isUpperAZ ?X"
        and dw: "dropWhile isUpperAZ ?W = dropWhile isUpperAZ ?X @ ys"
        using while_some_append [of ?X isUpperAZ ys, OF notU] by simp_all
      let ?D = "dropWhile isUpperAZ ?X"
      have Dne: "?D \<noteq> []" using notU by (metis while_all dropWhile_eq_Nil_conv)
      have lastD: "last ?D = last ?X" using Dne by (rule last_dropWhile)
      show ?thesis
      proof (cases "\<forall>x\<in>set ?D. isLowerAZ x")
        case allL: True
        then have "isLowerAZ (last ?D)" using Dne last_in_set by blast
        with b2 lastD have nL: "\<not> isLowerAZ (hd ys)" by simp
        have twL: "takeWhile isLowerAZ (?D @ ys) = ?D"
          and dwL: "dropWhile isLowerAZ (?D @ ys) = ys"
          using while_all_append [of ?D isLowerAZ ys, OF allL ys nL] by simp_all
        have twLX: "takeWhile isLowerAZ ?D = ?D" and dwLX: "dropWhile isLowerAZ ?D = []"
          using while_all [of ?D isLowerAZ, OF allL] by simp_all
        have ceq: "?condW = ?cond" by (simp add: tw dw twL twLX)
        show ?thesis
        proof (cases ?cond)
          case True
          have "sepAcronym ?W
                = butlast (takeWhile isUpperAZ ?X) @ CHR ''_'' # last (takeWhile isUpperAZ ?X) # ?D @ sepAcronym ys"
            using True ceq sepAcronym_then [of c "cs @ ys"] by (simp add: tw dw twL dwL)
          moreover have "sepAcronym ?X
                = butlast (takeWhile isUpperAZ ?X) @ CHR ''_'' # last (takeWhile isUpperAZ ?X) # ?D"
            using sepAcronym_then [OF True] by (simp add: twLX dwLX)
          ultimately show ?thesis by simp
        next
          case False
          then show ?thesis using elseBoth ceq by simp
        qed
      next
        case notL: False
        have twL: "takeWhile isLowerAZ (?D @ ys) = takeWhile isLowerAZ ?D"
          and dwL: "dropWhile isLowerAZ (?D @ ys) = dropWhile isLowerAZ ?D @ ys"
          using while_some_append [of ?D isLowerAZ ys, OF notL] by simp_all
        let ?R = "dropWhile isLowerAZ ?D"
        have Rne: "?R \<noteq> []" using notL by (metis while_all dropWhile_eq_Nil_conv)
        have lastR: "last ?R = last ?X" using last_dropWhile [OF Rne] lastD by simp
        have splitR: "splitsAt ?R ys"
          using b1 b2 lastR by (simp add: splitsAt_def)
        have ceq: "?condW = ?cond" by (simp add: tw dw twL)
        show ?thesis
        proof (cases ?cond)
          case True
          have ih: "sepAcronym (?R @ ys) = sepAcronym ?R @ sepAcronym ys"
            using "2.IH"(1) [OF True splitR] .
          have "sepAcronym ?W
                = butlast (takeWhile isUpperAZ ?X) @ CHR ''_'' # last (takeWhile isUpperAZ ?X)
                  # takeWhile isLowerAZ ?D @ sepAcronym (?R @ ys)"
            using True ceq sepAcronym_then [of c "cs @ ys"] by (simp add: tw dw twL dwL)
          moreover have "sepAcronym ?X
                = butlast (takeWhile isUpperAZ ?X) @ CHR ''_'' # last (takeWhile isUpperAZ ?X)
                  # takeWhile isLowerAZ ?D @ sepAcronym ?R"
            using sepAcronym_then [OF True] by simp
          ultimately show ?thesis using ih by simp
        next
          case False
          then show ?thesis using elseBoth ceq by simp
        qed
      qed
    qed
  qed
qed

lemma special_chars:
  "\<not> isUpperAZ CHR ''.''" "\<not> isLowerAZ CHR ''.''" "\<not> isDigit CHR ''.''"
  "\<not> isUpperAZ CHR ''$''" "\<not> isLowerAZ CHR ''$''" "\<not> isDigit CHR ''$''"
  "\<not> isUpperAZ CHR ''/''" "\<not> isLowerAZ CHR ''/''" "\<not> isDigit CHR ''/''"
  "\<not> isUpperAZ CHR ''_''" "\<not> isLowerAZ CHR ''_''" "\<not> isDigit CHR ''_''"
  "\<not> isUpperAZ CHR ''-''" "\<not> isLowerAZ CHR ''-''" "\<not> isDigit CHR ''-''"
  "\<not> isSpace CHR ''/''" "\<not> isSpace CHR ''_''"
  by (simp_all add: isUpperAZ_def isLowerAZ_def isDigit_def isSpace_def)

lemma last_app3a: "b \<noteq> [] \<Longrightarrow> last (a @ b @ []) = last b"
  by simp

lemma last_app3b: "c \<noteq> [] \<Longrightarrow> last (a @ b @ c) = last c"
  by simp

lemma sepAcronym_last: "xs \<noteq> [] \<Longrightarrow> last (sepAcronym xs) = last xs"
proof (induction xs rule: sepAcronym.induct)
  case 1
  then show ?case by simp
next
  case (2 c cs)
  let ?X = "c # cs"
  let ?cond = "2 \<le> length (takeWhile isUpperAZ ?X)
               \<and> 2 \<le> length (takeWhile isLowerAZ (dropWhile isUpperAZ ?X))"
  let ?D = "dropWhile isUpperAZ ?X"
  let ?R = "dropWhile isLowerAZ ?D"
  note [simp del] = takeWhile.simps(2) dropWhile.simps(2) sepAcronym.simps(2)
  show ?case
  proof (cases ?cond)
    case True
    then have lows: "takeWhile isLowerAZ ?D \<noteq> []" by auto
    have X: "takeWhile isUpperAZ ?X @ takeWhile isLowerAZ ?D @ ?R = ?X"
      by simp
    have lastX: "last ?X = last (takeWhile isUpperAZ ?X @ takeWhile isLowerAZ ?D @ ?R)"
      by (simp only: X)
    show ?thesis
    proof (cases "?R = []")
      case Rnil: True
      have "last (takeWhile isUpperAZ ?X @ takeWhile isLowerAZ ?D @ ?R)
            = last (takeWhile isLowerAZ ?D)"
        unfolding Rnil by (rule last_app3a [OF lows])
      with lastX have "last ?X = last (takeWhile isLowerAZ ?D)" by (rule trans)
      moreover have "last (sepAcronym ?X) = last (takeWhile isLowerAZ ?D)"
      proof -
        have "sepAcronym ?X = (butlast (takeWhile isUpperAZ ?X) @ [CHR ''_'', last (takeWhile isUpperAZ ?X)])
                @ takeWhile isLowerAZ ?D"
          using sepAcronym_then [OF True] by (simp add: Rnil)
        then show ?thesis by (simp only: last_appendR [OF lows])
      qed
      ultimately show ?thesis by simp
    next
      case Rne: False
      have "last (takeWhile isUpperAZ ?X @ takeWhile isLowerAZ ?D @ ?R) = last ?R"
        by (rule last_app3b [OF Rne])
      with lastX have "last ?X = last ?R" by (rule trans)
      moreover have "last (sepAcronym ?X) = last (sepAcronym ?R)"
      proof -
        have Sne: "sepAcronym ?R \<noteq> []"
          using Rne by (simp only: sepAcronym_Nil_iff not_False_eq_True)
        have "sepAcronym ?X = (butlast (takeWhile isUpperAZ ?X) @ CHR ''_'' # last (takeWhile isUpperAZ ?X)
                # takeWhile isLowerAZ ?D) @ sepAcronym ?R"
          using sepAcronym_then [OF True] by simp
        then show ?thesis by (simp only: last_appendR [OF Sne])
      qed
      ultimately show ?thesis using "2.IH"(1) [OF True Rne] by simp
    qed
  next
    case False
    then show ?thesis
      using "2.IH"(2) [OF False] sepAcronym_else [OF False]
      by (cases "cs = []") (simp_all add: sepAcronym_Nil_iff)
  qed
qed

lemma sepAcronym_no_upper: "\<forall>x\<in>set xs. \<not> isUpperAZ x \<Longrightarrow> sepAcronym xs = xs"
proof (induction xs)
  case Nil
  then show ?case by simp
next
  case (Cons c cs)
  have d: "takeWhile isUpperAZ (c # cs) = []" using Cons.prems by simp
  have "\<not> (2 \<le> length (takeWhile isUpperAZ (c # cs))
     \<and> 2 \<le> length (takeWhile isLowerAZ (dropWhile isUpperAZ (c # cs))))"
    unfolding d by simp
  then have "sepAcronym (c # cs) = c # sepAcronym cs" by (rule sepAcronym_else)
  then show ?case using Cons by simp
qed

lemma sepAcronym_all_upper: "\<forall>x\<in>set xs. isUpperAZ x \<Longrightarrow> sepAcronym xs = xs"
proof (induction xs)
  case Nil
  then show ?case by simp
next
  case (Cons c cs)
  have d: "dropWhile isUpperAZ (c # cs) = []" using Cons.prems by simp
  have "\<not> (2 \<le> length (takeWhile isUpperAZ (c # cs))
     \<and> 2 \<le> length (takeWhile isLowerAZ (dropWhile isUpperAZ (c # cs))))"
    unfolding d by simp
  then have "sepAcronym (c # cs) = c # sepAcronym cs" by (rule sepAcronym_else)
  then show ?case using Cons by simp
qed

lemma lower_not_upper: "isLowerAZ c \<Longrightarrow> \<not> isUpperAZ c"
  by (auto simp: isUpperAZ_def isLowerAZ_def)

lemma digit_not_letter: "isDigit c \<Longrightarrow> \<not> isUpperAZ c \<and> \<not> isLowerAZ c"
  by (auto simp: isUpperAZ_def isLowerAZ_def isDigit_def)

lemma pre_append:
  "replaceDollars (replaceDots (xs @ ys))
   = replaceDollars (replaceDots xs) @ replaceDollars (replaceDots ys)"
  by (simp add: replaceDollars_def replaceDots_def)

lemma pre_plain:
  "c \<noteq> CHR ''.'' \<Longrightarrow> c \<noteq> CHR ''$''
   \<Longrightarrow> replaceDollars (replaceDots (c # ys)) = c # replaceDollars (replaceDots ys)"
  by (simp add: replaceDollars_def replaceDots_def)

lemma post_append:
  "toLowerCase (replaceDashSpace (xs @ ys))
   = toLowerCase (replaceDashSpace xs) @ toLowerCase (replaceDashSpace ys)"
  by (simp add: toLowerCase_def replaceDashSpace_def)

lemma post_underscore: "toLowerCase (replaceDashSpace (CHR ''_'' # ys))
   = CHR ''_'' # toLowerCase (replaceDashSpace ys)"
  by (simp add: toLowerCase_def replaceDashSpace_def toLowerChar_def special_chars)

lemma post_slash: "toLowerCase (replaceDashSpace (CHR ''/'' # ys))
   = CHR ''/'' # toLowerCase (replaceDashSpace ys)"
  by (simp add: toLowerCase_def replaceDashSpace_def toLowerChar_def special_chars)

lemma letter_plain:
  "isUpperAZ c \<or> isLowerAZ c \<or> isDigit c \<Longrightarrow> c \<noteq> CHR ''.'' \<and> c \<noteq> CHR ''$''"
  using special_chars by blast

lemma snakeCase_lower_upper:
  assumes a: "isLowerAZ a \<or> isDigit a" and b: "isUpperAZ b"
  shows "snakeCase (xs @ a # b # ys) = snakeCase (xs @ [a]) @ CHR ''_'' # snakeCase (b # ys)"
proof -
  define P where "P = replaceDollars (replaceDots xs)"
  define Q where "Q = replaceDollars (replaceDots ys)"
  have pa: "a \<noteq> CHR ''.'' \<and> a \<noteq> CHR ''$''" using a letter_plain by blast
  have pb: "b \<noteq> CHR ''.'' \<and> b \<noteq> CHR ''$''" using b letter_plain by blast
  have nUa: "\<not> isUpperAZ a" using a lower_not_upper digit_not_letter by blast
  have nLb: "\<not> isLowerAZ b" using b lower_not_upper by blast
  have preW: "replaceDollars (replaceDots (xs @ a # b # ys)) = (P @ [a]) @ (b # Q)"
    using pre_append [of xs "a # b # ys"] pa pb by (simp add: pre_plain P_def Q_def)
  have preL: "replaceDollars (replaceDots (xs @ [a])) = P @ [a]"
    using pre_append [of xs "[a]"] pa pre_plain [of a "[]"]
    by (simp add: P_def replaceDollars_def replaceDots_def)
  have preR: "replaceDollars (replaceDots (b # ys)) = b # Q"
    using pb by (simp add: pre_plain Q_def)
  have sp: "splitsAt (P @ [a]) (b # Q)"
    using nUa nLb by (simp add: splitsAt_def)
  define A where "A = sepAcronym (P @ [a])"
  define B where "B = sepAcronym (b # Q)"
  have s3: "sepAcronym ((P @ [a]) @ (b # Q)) = A @ B"
    unfolding A_def B_def using sp by (rule sepAcronym_append)
  have Ane: "A \<noteq> []" and Bne: "B \<noteq> []"
    by (simp_all add: A_def B_def sepAcronym_Nil_iff)
  have lastA: "last A = a" unfolding A_def using sepAcronym_last [of "P @ [a]"] by simp
  have hdB: "hd B = b" unfolding B_def using sepAcronym_hd [of "b # Q"] by simp
  have s4: "sepLowerUpper (A @ B) = sepLowerUpper A @ ''_'' @ sepLowerUpper B"
    using sepLowerUpper_append [of A B] Ane Bne lastA hdB a b by simp
  have "snakeCase (xs @ a # b # ys)
        = toLowerCase (replaceDashSpace (sepLowerUpper A))
          @ CHR ''_'' # toLowerCase (replaceDashSpace (sepLowerUpper B))"
    unfolding snakeCase_def preW s3 s4 by (simp add: post_append post_underscore)
  moreover have "snakeCase (xs @ [a]) = toLowerCase (replaceDashSpace (sepLowerUpper A))"
    unfolding snakeCase_def preL A_def ..
  moreover have "snakeCase (b # ys) = toLowerCase (replaceDashSpace (sepLowerUpper B))"
    unfolding snakeCase_def preR B_def ..
  ultimately show ?thesis by simp
qed

lemma sepAcronym_neutral_Cons: "\<not> isUpperAZ n \<Longrightarrow> sepAcronym (n # Q) = n # sepAcronym Q"
proof -
  assume n: "\<not> isUpperAZ n"
  have d: "takeWhile isUpperAZ (n # Q) = []" using n by simp
  have "\<not> (2 \<le> length (takeWhile isUpperAZ (n # Q))
     \<and> 2 \<le> length (takeWhile isLowerAZ (dropWhile isUpperAZ (n # Q))))"
    unfolding d by simp
  then show ?thesis by (rule sepAcronym_else)
qed

lemma sepLowerUpper_neutral_Cons:
  "\<not> isLowerAZ n \<Longrightarrow> \<not> isDigit n \<Longrightarrow> sepLowerUpper (n # B) = n # sepLowerUpper B"
  using sepLowerUpper_append [of "[n]" B] by simp

lemma sepLowerUpper_neutral:
  assumes n: "\<not> isUpperAZ n" "\<not> isLowerAZ n" "\<not> isDigit n"
  shows "sepLowerUpper (A @ n # B) = sepLowerUpper A @ n # sepLowerUpper B"
  using sepLowerUpper_append [of A "n # B"] sepLowerUpper_neutral_Cons [OF n(2) n(3)] n by simp

lemma stages_neutral:
  assumes n: "\<not> isUpperAZ n" "\<not> isLowerAZ n" "\<not> isDigit n"
  shows "sepLowerUpper (sepAcronym (P @ n # Q))
         = sepLowerUpper (sepAcronym P) @ n # sepLowerUpper (sepAcronym Q)"
proof -
  have "splitsAt P (n # Q)" using n by (simp add: splitsAt_def)
  then have "sepAcronym (P @ n # Q) = sepAcronym P @ n # sepAcronym Q"
    using sepAcronym_append [of P "n # Q"] sepAcronym_neutral_Cons [OF n(1)] by simp
  moreover have "sepLowerUpper (sepAcronym P @ n # sepAcronym Q)
      = sepLowerUpper (sepAcronym P) @ sepLowerUpper (n # sepAcronym Q)"
    using sepLowerUpper_append [of "sepAcronym P" "n # sepAcronym Q"] n by simp
  ultimately show ?thesis
    using sepLowerUpper_neutral_Cons [OF n(2) n(3)] by simp
qed

lemma snakeCase_dot: "snakeCase (xs @ CHR ''.'' # ys) = snakeCase xs @ CHR ''/'' # snakeCase ys"
proof -
  have "replaceDollars (replaceDots (xs @ CHR ''.'' # ys))
        = replaceDollars (replaceDots xs) @ CHR ''/'' # replaceDollars (replaceDots ys)"
    by (simp add: replaceDollars_def replaceDots_def)
  then show ?thesis
    unfolding snakeCase_def
    by (simp add: stages_neutral special_chars post_append post_slash)
qed

lemma snakeCase_dollar: "snakeCase (xs @ CHR ''$'' # ys) = snakeCase xs @ ''__'' @ snakeCase ys"
proof -
  have "replaceDollars (replaceDots (xs @ CHR ''$'' # ys))
        = replaceDollars (replaceDots xs) @ CHR ''_'' # CHR ''_'' # replaceDollars (replaceDots ys)"
    by (simp add: replaceDollars_def replaceDots_def)
  moreover have "sepLowerUpper (sepAcronym (CHR ''_'' # Q)) = CHR ''_'' # sepLowerUpper (sepAcronym Q)" for Q
    using stages_neutral [of "CHR ''_''" "[]" Q] by (simp add: special_chars)
  ultimately show ?thesis
    unfolding snakeCase_def
    by (simp add: stages_neutral special_chars post_append post_underscore)
qed

lemma pre_last_not_upper:
  "xs = [] \<or> \<not> isUpperAZ (last xs)
   \<Longrightarrow> replaceDollars (replaceDots xs) = [] \<or> \<not> isUpperAZ (last (replaceDollars (replaceDots xs)))"
proof (cases xs rule: rev_cases)
  case Nil
  then show ?thesis by (simp add: replaceDollars_def replaceDots_def)
next
  case (snoc zs z)
  assume "xs = [] \<or> \<not> isUpperAZ (last xs)"
  with snoc have "\<not> isUpperAZ z" by simp
  then show ?thesis
    unfolding snoc by (simp add: replaceDollars_def replaceDots_def special_chars)
qed

lemma pre_hd_not_lower:
  "ys = [] \<or> \<not> isLowerAZ (hd ys)
   \<Longrightarrow> replaceDollars (replaceDots ys) = [] \<or> \<not> isLowerAZ (hd (replaceDollars (replaceDots ys)))"
  by (cases ys) (auto simp: replaceDollars_def replaceDots_def special_chars)

lemma pre_letters:
  "\<forall>x\<in>set R. isUpperAZ x \<or> isLowerAZ x \<Longrightarrow> replaceDollars (replaceDots R) = R"
proof (induction R)
  case Nil
  then show ?case by (simp add: replaceDollars_def replaceDots_def)
next
  case (Cons c R)
  then have "c \<noteq> CHR ''.'' \<and> c \<noteq> CHR ''$''" using letter_plain [of c] by auto
  with Cons show ?case by (simp add: pre_plain)
qed

lemma snakeCase_acronym:
  assumes R: "R \<noteq> []" "\<forall>x\<in>set R. isUpperAZ x" and u: "isUpperAZ u"
    and ls: "\<forall>x\<in>set ls. isLowerAZ x" "2 \<le> length ls"
    and xs: "xs = [] \<or> \<not> isUpperAZ (last xs)" and ys: "ys = [] \<or> \<not> isLowerAZ (hd ys)"
  shows "snakeCase (xs @ R @ u # ls @ ys) = snakeCase (xs @ R) @ CHR ''_'' # snakeCase (u # ls @ ys)"
proof -
  define P where "P = replaceDollars (replaceDots xs)"
  define Q where "Q = replaceDollars (replaceDots ys)"
  have P: "P = [] \<or> \<not> isUpperAZ (last P)" unfolding P_def using xs by (rule pre_last_not_upper)
  have Q: "Q = [] \<or> \<not> isLowerAZ (hd Q)" unfolding Q_def using ys by (rule pre_hd_not_lower)
  have preR: "replaceDollars (replaceDots R) = R" using R(2) by (simp add: pre_letters)
  have preM: "replaceDollars (replaceDots (u # ls)) = u # ls"
    using u ls(1) pre_letters [of "u # ls"] by simp
  have lsne: "ls \<noteq> []" using ls(2) by auto
  have hdls: "isLowerAZ (hd ls)" using ls(1) lsne by simp
  have lastls: "isLowerAZ (last ls)" using ls(1) lsne by simp
  obtain r R' where Rc: "R = r # R'" using R(1) by (cases R) auto
  have preW: "replaceDollars (replaceDots (xs @ R @ u # ls @ ys)) = P @ (R @ u # ls @ Q)"
    using pre_append [of xs "R @ (u # ls) @ ys"] pre_append [of R "(u # ls) @ ys"]
      pre_append [of "u # ls" ys] preR preM by (simp add: P_def Q_def)
  have preL: "replaceDollars (replaceDots (xs @ R)) = P @ R"
    using pre_append [of xs R] preR by (simp add: P_def)
  have preRt: "replaceDollars (replaceDots (u # ls @ ys)) = (u # ls) @ Q"
    using pre_append [of "u # ls" ys] preM by (simp add: Q_def)
  have hdR: "isUpperAZ (hd R)" using R by (simp add: Rc)
  have spW: "splitsAt P (R @ u # ls @ Q)"
    using P hdR R(1) lower_not_upper [of "hd R"] by (auto simp: splitsAt_def)
  have spL: "splitsAt P R"
    using P hdR R(1) lower_not_upper [of "hd R"] by (auto simp: splitsAt_def)
  have spT: "splitsAt (u # ls) Q"
    using Q lastls lsne lower_not_upper [of "last ls"] by (auto simp: splitsAt_def)
  have tw: "takeWhile isUpperAZ (R @ u # ls @ Q) = R @ [u]"
   and dw: "dropWhile isUpperAZ (R @ u # ls @ Q) = ls @ Q"
    using while_all_append [of "R @ [u]" isUpperAZ "ls @ Q"] R(2) u lsne hdls lower_not_upper [of "hd ls"]
    by simp_all
  have twl: "takeWhile isLowerAZ (ls @ Q) = ls" and dwl: "dropWhile isLowerAZ (ls @ Q) = Q"
  proof -
    show "takeWhile isLowerAZ (ls @ Q) = ls"
      using Q ls(1) while_all_append [of ls isLowerAZ Q] by (cases "Q = []") simp_all
    show "dropWhile isLowerAZ (ls @ Q) = Q"
      using Q ls(1) while_all_append [of ls isLowerAZ Q] by (cases "Q = []") simp_all
  qed
  have cond: "2 \<le> length (takeWhile isUpperAZ (r # (R' @ u # ls @ Q)))
     \<and> 2 \<le> length (takeWhile isLowerAZ (dropWhile isUpperAZ (r # (R' @ u # ls @ Q))))"
    using tw dw twl ls(2) by (simp add: Rc del: takeWhile.simps(2) dropWhile.simps(2))
  have mid: "sepAcronym (R @ u # ls @ Q) = R @ CHR ''_'' # u # ls @ sepAcronym Q"
    using sepAcronym_then [OF cond] tw dw twl dwl
    by (simp add: Rc del: takeWhile.simps(2) dropWhile.simps(2) sepAcronym.simps(2))
  have s3W: "sepAcronym (P @ (R @ u # ls @ Q)) = (sepAcronym P @ R) @ CHR ''_'' # (u # ls @ sepAcronym Q)"
    using sepAcronym_append [OF spW] mid by simp
  have s3L: "sepAcronym (P @ R) = sepAcronym P @ R"
    using sepAcronym_append [OF spL] sepAcronym_all_upper [OF R(2)] by simp
  have nU: "\<forall>x\<in>set ls. \<not> isUpperAZ x" using ls(1) lower_not_upper by blast
  have twu: "takeWhile isUpperAZ (u # ls) = [u]"
    using u nU lsne hdls lower_not_upper [of "hd ls"] by (cases ls) simp_all
  have "\<not> (2 \<le> length (takeWhile isUpperAZ (u # ls))
     \<and> 2 \<le> length (takeWhile isLowerAZ (dropWhile isUpperAZ (u # ls))))"
    unfolding twu by simp
  then have "sepAcronym (u # ls) = u # sepAcronym ls" by (rule sepAcronym_else)
  then have s3M: "sepAcronym (u # ls) = u # ls"
    using sepAcronym_no_upper [OF nU] by simp
  have s3T: "sepAcronym ((u # ls) @ Q) = u # ls @ sepAcronym Q"
    using sepAcronym_append [OF spT] s3M by simp
  have s4: "sepLowerUpper ((sepAcronym P @ R) @ CHR ''_'' # (u # ls @ sepAcronym Q))
            = sepLowerUpper (sepAcronym P @ R) @ CHR ''_'' # sepLowerUpper (u # ls @ sepAcronym Q)"
    by (rule sepLowerUpper_neutral) (simp_all add: special_chars)
  have "snakeCase (xs @ R @ u # ls @ ys)
        = toLowerCase (replaceDashSpace (sepLowerUpper (sepAcronym P @ R)))
          @ CHR ''_'' # toLowerCase (replaceDashSpace (sepLowerUpper (u # ls @ sepAcronym Q)))"
    unfolding snakeCase_def preW s3W s4 by (simp add: post_append post_underscore)
  moreover have "snakeCase (xs @ R) = toLowerCase (replaceDashSpace (sepLowerUpper (sepAcronym P @ R)))"
    unfolding snakeCase_def preL s3L ..
  moreover have "snakeCase (u # ls @ ys)
        = toLowerCase (replaceDashSpace (sepLowerUpper (u # ls @ sepAcronym Q)))"
    unfolding snakeCase_def preRt s3T ..
  ultimately show ?thesis by simp
qed


text \<open>
  Claim C7. \<open>snakeCase\<close> maps \<open>HTTPResponse\<close> to \<open>http_response\<close> and \<open>myVar2X\<close> to
  \<open>my_var2_x\<close>. For every input the result has no capital letter. Between a lower-case
  letter or digit and a capital that follows it the result has a separator, and the two
  sides are projected on their own. A run of capitals followed by a capitalised word of at
  least two lower-case letters gets a separator before the word. A dot ends a segment: it
  becomes \<open>/\<close> and both sides are projected on their own; a dollar sign becomes two
  underscores.
\<close>

theorem snakeCase_projection:
  "snakeCase ''HTTPResponse'' = ''http_response''
   \<and> snakeCase ''myVar2X'' = ''my_var2_x''
   \<and> list_all (\<lambda>c. \<not> isUpperAZ c) (snakeCase s)
   \<and> ((isLowerAZ a \<or> isDigit a) \<and> isUpperAZ b
        \<longrightarrow> snakeCase (xs @ a # b # ys) = snakeCase (xs @ [a]) @ CHR ''_'' # snakeCase (b # ys))
   \<and> (R \<noteq> [] \<and> list_all isUpperAZ R \<and> isUpperAZ u \<and> list_all isLowerAZ ls \<and> 2 \<le> length ls
        \<and> (xs = [] \<or> \<not> isUpperAZ (last xs)) \<and> (ys = [] \<or> \<not> isLowerAZ (hd ys))
        \<longrightarrow> snakeCase (xs @ R @ u # ls @ ys)
            = snakeCase (xs @ R) @ CHR ''_'' # snakeCase (u # ls @ ys))
   \<and> snakeCase (xs @ CHR ''.'' # ys) = snakeCase xs @ CHR ''/'' # snakeCase ys
   \<and> snakeCase (xs @ CHR ''$'' # ys) = snakeCase xs @ ''__'' @ snakeCase ys"
proof -
  have "snakeCase ''HTTPResponse'' = ''http_response''" by code_simp
  moreover have "snakeCase ''myVar2X'' = ''my_var2_x''" by code_simp
  moreover note snakeCase_lower [of s]
  moreover have "(isLowerAZ a \<or> isDigit a) \<and> isUpperAZ b
        \<longrightarrow> snakeCase (xs @ a # b # ys) = snakeCase (xs @ [a]) @ CHR ''_'' # snakeCase (b # ys)"
    using snakeCase_lower_upper by blast
  moreover have "R \<noteq> [] \<and> list_all isUpperAZ R \<and> isUpperAZ u \<and> list_all isLowerAZ ls \<and> 2 \<le> length ls
        \<and> (xs = [] \<or> \<not> isUpperAZ (last xs)) \<and> (ys = [] \<or> \<not> isLowerAZ (hd ys))
        \<longrightarrow> snakeCase (xs @ R @ u # ls @ ys)
            = snakeCase (xs @ R) @ CHR ''_'' # snakeCase (u # ls @ ys)"
    using snakeCase_acronym [of R u ls xs ys] by (simp add: list_all_iff)
  moreover note snakeCase_dot [of xs ys] snakeCase_dollar [of xs ys]
  ultimately show ?thesis by blast
qed

theorem snakeCase_projection_witness:
  "snakeCase ''myVar2X'' = snakeCase ''myVar2'' @ CHR ''_'' # snakeCase ''X''
   \<and> snakeCase ''HTTPResponse'' = snakeCase ''HTTP'' @ CHR ''_'' # snakeCase ''Response''
   \<and> snakeCase ''a.b'' = snakeCase ''a'' @ CHR ''/'' # snakeCase ''b''"
proof -
  have h1: "(isLowerAZ CHR ''2'' \<or> isDigit CHR ''2'') \<and> isUpperAZ CHR ''X''"
    by (simp add: isDigit_def isUpperAZ_def)
  have h2: "''HTTP'' \<noteq> [] \<and> list_all isUpperAZ ''HTTP'' \<and> isUpperAZ CHR ''R''
        \<and> list_all isLowerAZ ''esponse'' \<and> 2 \<le> length ''esponse''
        \<and> (([]::string) = [] \<or> \<not> isUpperAZ (last [])) \<and> (([]::string) = [] \<or> \<not> isLowerAZ (hd []))"
    by (simp add: isLowerAZ_def isUpperAZ_def)
  show ?thesis
    using snakeCase_projection [of "[]" "CHR ''2''" "CHR ''X''" "''myVar''" "[]" "[]" "CHR ''R''" "[]"]
      snakeCase_projection [of "[]" "CHR ''2''" "CHR ''X''" "[]" "[]" "''HTTP''" "CHR ''R''" "''esponse''"]
      snakeCase_projection [of "[]" "CHR ''2''" "CHR ''X''" "''a''" "''b''" "[]" "CHR ''R''" "[]"]
      h1 h2
    by simp
qed

text \<open>
  Claim C8, amended. For the identifiers \<open>with\<close>, \<open>if\<close> and \<open>class\<close> the Python projection
  of a property gives three names that differ from one another and from their inputs
  (the prefix \<open>var\<close>; \<open>var_\<close> when the parser has already escaped the name with a leading
  underscore). The Java projection gives \<open>_if\<close> and \<open>propertyClass\<close> and leaves \<open>with\<close>,
  which is not in the Java table, as it is; the three Java names differ from one another.
  Both projections are functions of the name alone.
\<close>

theorem reserved_word_projection:
  "map (toPythonName Property) [''with'', ''if'', ''class''] = [''varwith'', ''varif'', ''varclass'']
   \<and> map (toPythonName Property) [''_with'', ''_if'', ''_class''] = [''var_with'', ''var_if'', ''var_class'']
   \<and> map toJavaName [''with'', ''if'', ''class''] = [''with'', ''_if'', ''propertyClass'']
   \<and> map toJavaName [''_with'', ''_if'', ''_class''] = [''with'', ''_if'', ''propertyClass'']
   \<and> distinct (map (toPythonName Property) [''with'', ''if'', ''class''])
   \<and> distinct (map toJavaName [''with'', ''if'', ''class''])
   \<and> toPythonName Property ''with'' \<noteq> ''with''
   \<and> toPythonName Property ''if'' \<noteq> ''if''
   \<and> toPythonName Property ''class'' \<noteq> ''class''
   \<and> toJavaName ''if'' \<noteq> ''if''
   \<and> toJavaName ''class'' \<noteq> ''class''"
  by code_simp

text \<open>The Java name of \<open>with\<close> is its input: the claim as stated fails for this target.\<close>

theorem toJavaName_with_counterexample: "toJavaName ''with'' = ''with''"
  by code_simp

section \<open>Composite models\<close>

text \<open>
  The fields of a parsed model that \<open>ensureCompositeModels\<close> reads: its name, its \<open>export\<close>
  and, of each of its properties, the name, the \<open>export\<close> and the type. A model of
  \<open>data.models\<close> is identified by its position in that list; an absent or empty name is
  the empty string.
\<close>

record model_property =
  prop_name :: string
  prop_export :: string
  prop_type :: string

record parsed_model =
  pm_name :: string
  pm_export :: string
  pm_properties :: "model_property list"

definition COMPOSED_SCHEMA_TYPES :: "string list" where
  "COMPOSED_SCHEMA_TYPES = [''one-of'', ''any-of'', ''all-of'']"

text \<open>
  \<open>Object.fromEntries(data.models.map(m => [m.name, m]))\<close>: of two models with one name the
  later one is kept. The first argument is the position of the head of the list.
\<close>

fun modelsByNameFrom :: "nat \<Rightarrow> parsed_model list \<Rightarrow> (string \<rightharpoonup> nat)" where
  "modelsByNameFrom k [] = Map.empty"
| "modelsByNameFrom k (m # ms) =
     (case modelsByNameFrom (Suc k) ms (pm_name m) of
        Some j \<Rightarrow> modelsByNameFrom (Suc k) ms
      | None \<Rightarrow> (modelsByNameFrom (Suc k) ms)(pm_name m \<mapsto> k))"

definition modelsByName :: "parsed_model list \<Rightarrow> (string \<rightharpoonup> nat)" where
  "modelsByName ms = modelsByNameFrom 0 ms"

text \<open>
  What the pass adds to the models: the set \<open>visited\<close>, the fields \<open>composedModels\<close> (the
  models as positions) and \<open>composedPrimitives\<close> of each model, and, for the proofs only,
  the order in which the body of \<open>mutateModelWithCompositeProperties\<close> was entered.
\<close>

record composite_state =
  cs_visited :: "nat list"
  cs_composedModels :: "nat \<rightharpoonup> nat list"
  cs_composedPrimitives :: "nat \<rightharpoonup> model_property list"
  cs_entered :: "nat list"

definition composedModelReferences :: "parsed_model \<Rightarrow> model_property list" where
  "composedModelReferences m =
     filter (\<lambda>p. prop_name p = [] \<and> prop_export p = ''reference'') (pm_properties m)"

definition composedPrimitivesOf :: "parsed_model \<Rightarrow> model_property list" where
  "composedPrimitivesOf m =
     filter (\<lambda>p. prop_name p = [] \<and> prop_export p \<noteq> ''reference'') (pm_properties m)"

text \<open>\<open>composedModelReferences.flatMap(r => modelsByName[r.type] ? [modelsByName[r.type]] : [])\<close>.\<close>

definition composedModelsOf :: "parsed_model list \<Rightarrow> parsed_model \<Rightarrow> nat list" where
  "composedModelsOf ms m =
     concat (map (\<lambda>r. case modelsByName ms (prop_type r) of Some j \<Rightarrow> [j] | None \<Rightarrow> [])
       (composedModelReferences m))"

text \<open>The message of the error thrown for an \<open>allOf\<close> with members that are not references.\<close>

definition invalidComposition :: "string \<Rightarrow> string" where
  "invalidComposition name =
     ''Schema '' @ [CHR 0x22] @ name @ [CHR 0x22]
     @ '' defines allOf with non-object types. allOf may only compose object types in the OpenAPI specification.''"

text \<open>
  \<open>mutateModelWithCompositeProperties\<close>, with the \<open>forEach\<close> over the composed models as a
  second function. An error (\<open>Inl\<close> with the message) ends the pass.
\<close>

function mutateModelWithCompositeProperties ::
    "parsed_model list \<Rightarrow> nat \<Rightarrow> composite_state \<Rightarrow> string + composite_state"
  and forEachComposed ::
    "parsed_model list \<Rightarrow> nat list \<Rightarrow> composite_state \<Rightarrow> string + composite_state" where
  "mutateModelWithCompositeProperties ms i st =
     (if pm_export (ms ! i) \<in> set COMPOSED_SCHEMA_TYPES \<and> i \<notin> set (cs_visited st)
      then (case forEachComposed ms (composedModelsOf ms (ms ! i))
                   (st\<lparr>cs_visited := i # cs_visited st, cs_entered := cs_entered st @ [i]\<rparr>) of
              Inl e \<Rightarrow> Inl e
            | Inr st' \<Rightarrow>
                if pm_export (ms ! i) = ''all-of'' \<and> composedPrimitivesOf (ms ! i) \<noteq> []
                then Inl (invalidComposition (pm_name (ms ! i)))
                else Inr (st'\<lparr>cs_composedModels := (cs_composedModels st')(i \<mapsto> composedModelsOf ms (ms ! i)),
                              cs_composedPrimitives :=
                                (cs_composedPrimitives st')(i \<mapsto> composedPrimitivesOf (ms ! i))\<rparr>))
      else Inr st)"
| "forEachComposed ms [] st = Inr st"
| "forEachComposed ms (j # js) st =
     (case mutateModelWithCompositeProperties ms j st of
        Inl e \<Rightarrow> Inl e
      | Inr st' \<Rightarrow> forEachComposed ms js st')"
  by pat_completeness auto


text \<open>Termination: each entry of the body adds a model to \<open>visited\<close>.\<close>

lemma modelsByNameFrom_range:
  "modelsByNameFrom k ms n = Some j \<Longrightarrow> k \<le> j \<and> j < k + length ms"
proof (induction ms arbitrary: k)
  case Nil
  then show ?case by simp
next
  case (Cons m ms)
  then show ?case
    by (fastforce split: option.splits if_splits)
qed

lemma composedModelsOf_range: "set (composedModelsOf ms m) \<subseteq> {..<length ms}"
  using modelsByNameFrom_range [of 0 ms]
  by (auto simp: composedModelsOf_def modelsByName_def split: option.splits)

lemma visited_mono_partial:
  "mutateModelWithCompositeProperties_forEachComposed_dom (Inl (ms, i, st))
     \<Longrightarrow> mutateModelWithCompositeProperties ms i st = Inr st'
     \<Longrightarrow> set (cs_visited st) \<subseteq> set (cs_visited st')"
  "mutateModelWithCompositeProperties_forEachComposed_dom (Inr (ms, js, st))
     \<Longrightarrow> forEachComposed ms js st = Inr st'
     \<Longrightarrow> set (cs_visited st) \<subseteq> set (cs_visited st')"
proof (induct arbitrary: st' and st' rule: mutateModelWithCompositeProperties_forEachComposed.pinduct)
  case (1 ms i st)
  show ?case
  proof (cases "pm_export (ms ! i) \<in> set COMPOSED_SCHEMA_TYPES \<and> i \<notin> set (cs_visited st)")
    case True
    with "1.prems" "1.hyps"(1) obtain st2 where
      st2: "forEachComposed ms (composedModelsOf ms (ms ! i))
              (st\<lparr>cs_visited := i # cs_visited st, cs_entered := cs_entered st @ [i]\<rparr>) = Inr st2"
      and v: "cs_visited st' = cs_visited st2"
      by (auto simp: mutateModelWithCompositeProperties.psimps split: sum.splits if_splits)
    from "1.hyps"(2) [OF True st2] v show ?thesis by auto
  next
    case False
    with "1.prems" "1.hyps"(1) show ?thesis
      by (simp add: mutateModelWithCompositeProperties.psimps)
  qed
next
  case (2 ms st)
  then show ?case by (simp add: forEachComposed.psimps)
next
  case (3 ms j js st)
  from "3.prems" "3.hyps"(1) obtain st1 where
    a: "mutateModelWithCompositeProperties ms j st = Inr st1"
    and b: "forEachComposed ms js st1 = Inr st'"
    by (auto simp: forEachComposed.psimps split: sum.splits)
  from "3.hyps"(2) [OF a] "3.hyps"(3) [OF a b] show ?case by blast
qed

lemma mutateModelWithCompositeProperties_total:
  "All mutateModelWithCompositeProperties_forEachComposed_dom"
proof (rule "mutateModelWithCompositeProperties_forEachComposed.termination"
    [of "inv_image (less_than <*lex*> less_than)
       (\<lambda>x. case x of
              Inl (ms, i, st) \<Rightarrow> (card (insert i {..<length ms} - set (cs_visited st)), 0)
            | Inr (ms, js, st) \<Rightarrow>
                (card (({..<length ms} \<union> set js) - set (cs_visited st)), Suc (length js)))"])
  show "wf (inv_image (less_than <*lex*> less_than)
       (\<lambda>x. case x of
              Inl (ms, i, st) \<Rightarrow> (card (insert i {..<length ms} - set (cs_visited st)), 0)
            | Inr (ms, js, st) \<Rightarrow>
                (card (({..<length ms} \<union> set js) - set (cs_visited st)), Suc (length js))))"
    by (intro wf_inv_image wf_lex_prod wf_less_than)
next
  fix ms :: "parsed_model list" and i :: nat and st :: composite_state
  assume c: "pm_export (ms ! i) \<in> set COMPOSED_SCHEMA_TYPES \<and> i \<notin> set (cs_visited st)"
  let ?cm = "composedModelsOf ms (ms ! i)"
  have sub: "{..<length ms} \<union> set ?cm = {..<length ms}"
    using composedModelsOf_range [of ms "ms ! i"] by blast
  have "({..<length ms} \<union> set ?cm) - set (i # cs_visited st)
        \<subset> insert i {..<length ms} - set (cs_visited st)"
    unfolding sub using c by auto
  then have "card (({..<length ms} \<union> set ?cm) - set (i # cs_visited st))
        < card (insert i {..<length ms} - set (cs_visited st))"
    by (intro psubset_card_mono) auto
  then show "(Inr (ms, ?cm, st\<lparr>cs_visited := i # cs_visited st, cs_entered := cs_entered st @ [i]\<rparr>),
         Inl (ms, i, st))
        \<in> inv_image (less_than <*lex*> less_than)
       (\<lambda>x. case x of
              Inl (ms, i, st) \<Rightarrow> (card (insert i {..<length ms} - set (cs_visited st)), 0)
            | Inr (ms, js, st) \<Rightarrow>
                (card (({..<length ms} \<union> set js) - set (cs_visited st)), Suc (length js)))"
    by simp
next
  fix ms :: "parsed_model list" and j :: nat and js :: "nat list" and st :: composite_state
  have "card (insert j {..<length ms} - set (cs_visited st))
        \<le> card (({..<length ms} \<union> set (j # js)) - set (cs_visited st))"
    by (intro card_mono) auto
  then show "(Inl (ms, j, st), Inr (ms, j # js, st))
        \<in> inv_image (less_than <*lex*> less_than)
       (\<lambda>x. case x of
              Inl (ms, i, st) \<Rightarrow> (card (insert i {..<length ms} - set (cs_visited st)), 0)
            | Inr (ms, js, st) \<Rightarrow>
                (card (({..<length ms} \<union> set js) - set (cs_visited st)), Suc (length js)))"
    by auto
next
  fix ms :: "parsed_model list" and j :: nat and js :: "nat list"
    and st st' :: composite_state
  assume r: "mutateModelWithCompositeProperties ms j st = Inr st'"
    and d: "mutateModelWithCompositeProperties_forEachComposed_dom (Inl (ms, j, st))"
  have "set (cs_visited st) \<subseteq> set (cs_visited st')"
    using visited_mono_partial(1) [OF d r] .
  then have "card (({..<length ms} \<union> set js) - set (cs_visited st'))
        \<le> card (({..<length ms} \<union> set (j # js)) - set (cs_visited st))"
    by (intro card_mono) auto
  then show "(Inr (ms, js, st'), Inr (ms, j # js, st))
        \<in> inv_image (less_than <*lex*> less_than)
       (\<lambda>x. case x of
              Inl (ms, i, st) \<Rightarrow> (card (insert i {..<length ms} - set (cs_visited st)), 0)
            | Inr (ms, js, st) \<Rightarrow>
                (card (({..<length ms} \<union> set js) - set (cs_visited st)), Suc (length js)))"
    by auto
qed

termination mutateModelWithCompositeProperties
  by (rule mutateModelWithCompositeProperties_total)

text \<open>\<open>ensureCompositeModels\<close>: every model of \<open>data.models\<close> in turn, with one \<open>visited\<close> set.\<close>

definition initialComposite :: composite_state where
  "initialComposite =
     \<lparr>cs_visited = [], cs_composedModels = Map.empty, cs_composedPrimitives = Map.empty,
      cs_entered = []\<rparr>"

definition ensureCompositeModels :: "parsed_model list \<Rightarrow> string + composite_state" where
  "ensureCompositeModels ms = forEachComposed ms [0..<length ms] initialComposite"

text \<open>
  A model is composed when its \<open>export\<close> is one of the three composition kinds; an \<open>allOf\<close>
  is rejected when one of its unnamed members is not a reference.
\<close>

definition isComposed :: "parsed_model \<Rightarrow> bool" where
  "isComposed m = (pm_export m \<in> set COMPOSED_SCHEMA_TYPES)"

definition offending :: "parsed_model \<Rightarrow> bool" where
  "offending m = (pm_export m = ''all-of'' \<and> composedPrimitivesOf m \<noteq> [])"

text \<open>
  How a run of the pass that ends without an error changes the state: the models in \<open>new\<close>
  were entered, in this order and each once, none of them had been visited before, each is
  composed and accepted and has its two fields set to its direct members, and the fields of
  every other model are as they were.
\<close>

definition extends ::
  "parsed_model list \<Rightarrow> composite_state \<Rightarrow> composite_state \<Rightarrow> nat list \<Rightarrow> bool" where
  "extends ms st st' new =
     (cs_entered st' = cs_entered st @ new
      \<and> cs_visited st' = rev new @ cs_visited st
      \<and> distinct new
      \<and> set new \<inter> set (cs_visited st) = {}
      \<and> list_all (\<lambda>j. isComposed (ms ! j) \<and> \<not> offending (ms ! j)
               \<and> cs_composedModels st' j = Some (composedModelsOf ms (ms ! j))
               \<and> cs_composedPrimitives st' j = Some (composedPrimitivesOf (ms ! j))) new
      \<and> (\<forall>j. j \<notin> set new \<longrightarrow> cs_composedModels st' j = cs_composedModels st j
                \<and> cs_composedPrimitives st' j = cs_composedPrimitives st j))"

text \<open>Models for the examples: an \<open>allOf\<close> chain, an \<open>allOf\<close> with a primitive member.\<close>

definition refMember :: "string \<Rightarrow> model_property" where
  "refMember t = \<lparr>prop_name = [], prop_export = ''reference'', prop_type = t\<rparr>"

definition allOfChain :: "parsed_model list" where
  "allOfChain =
     [\<lparr>pm_name = ''A'', pm_export = ''all-of'', pm_properties = [refMember ''B'']\<rparr>,
      \<lparr>pm_name = ''B'', pm_export = ''all-of'', pm_properties = [refMember ''C'', refMember ''C'']\<rparr>,
      \<lparr>pm_name = ''C'', pm_export = ''interface'', pm_properties = []\<rparr>]"

definition mixedAllOf :: "parsed_model list" where
  "mixedAllOf =
     [\<lparr>pm_name = ''Mixed'', pm_export = ''all-of'',
       pm_properties = [refMember ''C'', \<lparr>prop_name = [], prop_export = ''generic'', prop_type = ''string''\<rparr>]\<rparr>,
      \<lparr>pm_name = ''C'', pm_export = ''interface'', pm_properties = []\<rparr>]"

section \<open>Properties of composite resolution\<close>

lemma extends_refl: "extends ms st st []"
  by (simp add: extends_def)

lemma extends_trans:
  assumes a: "extends ms st st1 n1" and b: "extends ms st1 st2 n2"
  shows "extends ms st st2 (n1 @ n2)"
proof -
  have e: "cs_entered st2 = cs_entered st @ n1 @ n2"
    using a b by (simp add: extends_def)
  have v: "cs_visited st2 = rev (n1 @ n2) @ cs_visited st"
    using a b by (simp add: extends_def)
  have disj12: "set n1 \<inter> set n2 = {}"
    using a b by (auto simp: extends_def)
  have d: "distinct (n1 @ n2)"
    using a b disj12 by (simp add: extends_def)
  have i: "set (n1 @ n2) \<inter> set (cs_visited st) = {}"
    using a b by (auto simp: extends_def)
  have keep: "cs_composedModels st2 j = cs_composedModels st1 j
              \<and> cs_composedPrimitives st2 j = cs_composedPrimitives st1 j" if "j \<notin> set n2" for j
    using b that by (simp add: extends_def)
  have keep1: "cs_composedModels st1 j = cs_composedModels st j
              \<and> cs_composedPrimitives st1 j = cs_composedPrimitives st j" if "j \<notin> set n1" for j
    using a that by (simp add: extends_def)
  have l1: "isComposed (ms ! j) \<and> \<not> offending (ms ! j)
               \<and> cs_composedModels st2 j = Some (composedModelsOf ms (ms ! j))
               \<and> cs_composedPrimitives st2 j = Some (composedPrimitivesOf (ms ! j))"
    if "j \<in> set n1" for j
  proof -
    from that disj12 have "j \<notin> set n2" by blast
    from keep [OF this] a that show ?thesis by (simp add: extends_def list_all_iff)
  qed
  have l2: "isComposed (ms ! j) \<and> \<not> offending (ms ! j)
               \<and> cs_composedModels st2 j = Some (composedModelsOf ms (ms ! j))
               \<and> cs_composedPrimitives st2 j = Some (composedPrimitivesOf (ms ! j))"
    if "j \<in> set n2" for j
    using b that by (simp add: extends_def list_all_iff)
  have l: "list_all (\<lambda>j. isComposed (ms ! j) \<and> \<not> offending (ms ! j)
               \<and> cs_composedModels st2 j = Some (composedModelsOf ms (ms ! j))
               \<and> cs_composedPrimitives st2 j = Some (composedPrimitivesOf (ms ! j))) (n1 @ n2)"
    unfolding list_all_iff using l1 l2 by auto
  have k: "\<forall>j. j \<notin> set (n1 @ n2) \<longrightarrow> cs_composedModels st2 j = cs_composedModels st j
                \<and> cs_composedPrimitives st2 j = cs_composedPrimitives st j"
    using keep keep1 by simp
  show ?thesis
    unfolding extends_def using e v d i l k by blast
qed

lemma extends_enter:
  assumes i: "i \<notin> set (cs_visited st)" and c: "isComposed (ms ! i)" and o: "\<not> offending (ms ! i)"
    and b: "extends ms (st\<lparr>cs_visited := i # cs_visited st, cs_entered := cs_entered st @ [i]\<rparr>) st2 n2"
  shows "extends ms st
           (st2\<lparr>cs_composedModels := (cs_composedModels st2)(i \<mapsto> composedModelsOf ms (ms ! i)),
                cs_composedPrimitives := (cs_composedPrimitives st2)(i \<mapsto> composedPrimitivesOf (ms ! i))\<rparr>)
           (i # n2)"
proof -
  have in2: "i \<notin> set n2" using b by (auto simp: extends_def)
  have l2: "isComposed (ms ! j) \<and> \<not> offending (ms ! j)
               \<and> cs_composedModels st2 j = Some (composedModelsOf ms (ms ! j))
               \<and> cs_composedPrimitives st2 j = Some (composedPrimitivesOf (ms ! j))"
    if "j \<in> set n2" for j
    using b that by (simp add: extends_def list_all_iff)
  have keep: "cs_composedModels st2 j = cs_composedModels st j
              \<and> cs_composedPrimitives st2 j = cs_composedPrimitives st j" if "j \<notin> set n2" for j
    using b that by (simp add: extends_def)
  show ?thesis
    unfolding extends_def list_all_iff
  proof (intro conjI)
    show "cs_entered (st2\<lparr>cs_composedModels := (cs_composedModels st2)(i \<mapsto> composedModelsOf ms (ms ! i)),
                cs_composedPrimitives := (cs_composedPrimitives st2)(i \<mapsto> composedPrimitivesOf (ms ! i))\<rparr>)
          = cs_entered st @ i # n2"
      using b by (simp add: extends_def)
    show "cs_visited (st2\<lparr>cs_composedModels := (cs_composedModels st2)(i \<mapsto> composedModelsOf ms (ms ! i)),
                cs_composedPrimitives := (cs_composedPrimitives st2)(i \<mapsto> composedPrimitivesOf (ms ! i))\<rparr>)
          = rev (i # n2) @ cs_visited st"
      using b by (simp add: extends_def)
    show "distinct (i # n2)" using b in2 by (simp add: extends_def)
    show "set (i # n2) \<inter> set (cs_visited st) = {}" using b i by (auto simp: extends_def)
    show "\<forall>j\<in>set (i # n2). isComposed (ms ! j) \<and> \<not> offending (ms ! j)
               \<and> cs_composedModels (st2\<lparr>cs_composedModels := (cs_composedModels st2)(i \<mapsto> composedModelsOf ms (ms ! i)),
                cs_composedPrimitives := (cs_composedPrimitives st2)(i \<mapsto> composedPrimitivesOf (ms ! i))\<rparr>) j
                   = Some (composedModelsOf ms (ms ! j))
               \<and> cs_composedPrimitives (st2\<lparr>cs_composedModels := (cs_composedModels st2)(i \<mapsto> composedModelsOf ms (ms ! i)),
                cs_composedPrimitives := (cs_composedPrimitives st2)(i \<mapsto> composedPrimitivesOf (ms ! i))\<rparr>) j
                   = Some (composedPrimitivesOf (ms ! j))"
      using c o l2 by auto
    show "\<forall>j. j \<notin> set (i # n2) \<longrightarrow>
            cs_composedModels (st2\<lparr>cs_composedModels := (cs_composedModels st2)(i \<mapsto> composedModelsOf ms (ms ! i)),
                cs_composedPrimitives := (cs_composedPrimitives st2)(i \<mapsto> composedPrimitivesOf (ms ! i))\<rparr>) j
              = cs_composedModels st j
            \<and> cs_composedPrimitives (st2\<lparr>cs_composedModels := (cs_composedModels st2)(i \<mapsto> composedModelsOf ms (ms ! i)),
                cs_composedPrimitives := (cs_composedPrimitives st2)(i \<mapsto> composedPrimitivesOf (ms ! i))\<rparr>) j
              = cs_composedPrimitives st j"
      using keep by simp
  qed
qed

lemma composite_success:
  "mutateModelWithCompositeProperties ms i st = Inr st'
     \<Longrightarrow> \<exists>new. extends ms st st' new \<and> (isComposed (ms ! i) \<longrightarrow> i \<in> set (cs_visited st'))"
  "forEachComposed ms js st = Inr st'
     \<Longrightarrow> \<exists>new. extends ms st st' new
          \<and> (\<forall>j\<in>set js. isComposed (ms ! j) \<longrightarrow> j \<in> set (cs_visited st'))"
proof (induct ms i st and ms js st arbitrary: st' and st'
       rule: mutateModelWithCompositeProperties_forEachComposed.induct)
  case (1 ms i st)
  show ?case
  proof (cases "pm_export (ms ! i) \<in> set COMPOSED_SCHEMA_TYPES \<and> i \<notin> set (cs_visited st)")
    case True
    let ?st1 = "st\<lparr>cs_visited := i # cs_visited st, cs_entered := cs_entered st @ [i]\<rparr>"
    from True "1.prems" obtain st2 where
      st2: "forEachComposed ms (composedModelsOf ms (ms ! i)) ?st1 = Inr st2"
      and o: "\<not> offending (ms ! i)"
      and st': "st' = st2\<lparr>cs_composedModels := (cs_composedModels st2)(i \<mapsto> composedModelsOf ms (ms ! i)),
                cs_composedPrimitives := (cs_composedPrimitives st2)(i \<mapsto> composedPrimitivesOf (ms ! i))\<rparr>"
      by (auto simp: offending_def split: sum.splits if_splits)
    from "1.hyps" [OF True st2] obtain n2 where n2: "extends ms ?st1 st2 n2" by blast
    have c: "isComposed (ms ! i)" using True by (simp add: isComposed_def)
    have "extends ms st st' (i # n2)"
      unfolding st' using True c o n2 by (intro extends_enter) simp_all
    moreover have "i \<in> set (cs_visited st')"
      using n2 by (simp add: st' extends_def)
    ultimately show ?thesis by blast
  next
    case False
    with "1.prems" have "st' = st" by simp
    with False show ?thesis
      using extends_refl [of ms st] by (auto simp: isComposed_def)
  qed
next
  case (2 ms st)
  then show ?case using extends_refl [of ms st] by auto
next
  case (3 ms j js st)
  from "3.prems" obtain st1 where
    a: "mutateModelWithCompositeProperties ms j st = Inr st1"
    and b: "forEachComposed ms js st1 = Inr st'"
    by (auto split: sum.splits)
  from "3.hyps"(1) [OF a] obtain n1 where
    n1: "extends ms st st1 n1" and v1: "isComposed (ms ! j) \<longrightarrow> j \<in> set (cs_visited st1)" by blast
  from "3.hyps"(2) [OF a b] obtain n2 where
    n2: "extends ms st1 st' n2"
    and v2: "\<forall>k\<in>set js. isComposed (ms ! k) \<longrightarrow> k \<in> set (cs_visited st')" by blast
  have "set (cs_visited st1) \<subseteq> set (cs_visited st')" using n2 by (auto simp: extends_def)
  with v1 v2 have "\<forall>k\<in>set (j # js). isComposed (ms ! k) \<longrightarrow> k \<in> set (cs_visited st')" by auto
  with extends_trans [OF n1 n2] show ?case by blast
qed


lemma composite_error:
  "mutateModelWithCompositeProperties ms i st = Inl e
     \<Longrightarrow> \<exists>j. (j = i \<or> j < length ms) \<and> offending (ms ! j)
              \<and> e = invalidComposition (pm_name (ms ! j))"
  "forEachComposed ms js st = Inl e
     \<Longrightarrow> \<exists>j. (j \<in> set js \<or> j < length ms) \<and> offending (ms ! j)
              \<and> e = invalidComposition (pm_name (ms ! j))"
proof (induct ms i st and ms js st
       rule: mutateModelWithCompositeProperties_forEachComposed.induct)
  case (1 ms i st)
  show ?case
  proof (cases "pm_export (ms ! i) \<in> set COMPOSED_SCHEMA_TYPES \<and> i \<notin> set (cs_visited st)")
    case True
    let ?st1 = "st\<lparr>cs_visited := i # cs_visited st, cs_entered := cs_entered st @ [i]\<rparr>"
    show ?thesis
    proof (cases "forEachComposed ms (composedModelsOf ms (ms ! i)) ?st1")
      case (Inl e')
      with True "1.prems" have "e' = e" by simp
      with "1.hyps" [OF True] Inl obtain j where
        j: "j \<in> set (composedModelsOf ms (ms ! i)) \<or> j < length ms" "offending (ms ! j)"
           "e = invalidComposition (pm_name (ms ! j))"
        by blast
      from j(1) composedModelsOf_range [of ms "ms ! i"] have "j < length ms" by auto
      with j show ?thesis by blast
    next
      case (Inr st2)
      with True "1.prems" have "offending (ms ! i) \<and> e = invalidComposition (pm_name (ms ! i))"
        by (auto simp: offending_def split: if_splits)
      then show ?thesis by blast
    qed
  next
    case False
    with "1.prems" show ?thesis by simp
  qed
next
  case (2 ms st)
  then show ?case by simp
next
  case (3 ms j js st)
  show ?case
  proof (cases "mutateModelWithCompositeProperties ms j st")
    case (Inl e')
    with "3.prems" have "e' = e" by simp
    with "3.hyps"(1) Inl show ?thesis by fastforce
  next
    case (Inr st1)
    with "3.prems" have "forEachComposed ms js st1 = Inl e" by simp
    from "3.hyps"(2) [OF Inr this] show ?thesis by fastforce
  qed
qed

lemma offending_isComposed: "offending m \<Longrightarrow> isComposed m"
  by (simp add: offending_def isComposed_def COMPOSED_SCHEMA_TYPES_def)

lemma ensure_success:
  assumes "ensureCompositeModels ms = Inr st"
  shows "extends ms initialComposite st (cs_entered st)
         \<and> (\<forall>j<length ms. isComposed (ms ! j) \<longrightarrow> j \<in> set (cs_entered st))"
proof -
  from composite_success(2) [OF assms [unfolded ensureCompositeModels_def]] obtain new where
    n: "extends ms initialComposite st new"
    and v: "\<forall>j\<in>set [0..<length ms]. isComposed (ms ! j) \<longrightarrow> j \<in> set (cs_visited st)"
    by blast
  from n have e: "cs_entered st = new" and vv: "cs_visited st = rev new"
    by (simp_all add: extends_def initialComposite_def)
  from v vv e have "\<forall>j<length ms. isComposed (ms ! j) \<longrightarrow> j \<in> set (cs_entered st)" by simp
  with n e show ?thesis by simp
qed

lemma ensure_error:
  assumes "ensureCompositeModels ms = Inl e"
  shows "\<exists>j<length ms. offending (ms ! j) \<and> e = invalidComposition (pm_name (ms ! j))"
  using composite_error(2) [OF assms [unfolded ensureCompositeModels_def]] by auto

text \<open>
  Claim C2. When some \<open>allOf\<close> model has an unnamed member that is not a reference,
  composite resolution fails with the error for such a model, and the message contains that
  model's name. When no \<open>allOf\<close> model has such a member, no error is raised.
\<close>

theorem allOf_validity:
  "((\<exists>j<length ms. offending (ms ! j))
      \<longrightarrow> (\<exists>j<length ms. offending (ms ! j)
             \<and> ensureCompositeModels ms = Inl (invalidComposition (pm_name (ms ! j)))))
   \<and> ((\<forall>j<length ms. \<not> offending (ms ! j)) \<longrightarrow> \<not> isl (ensureCompositeModels ms))
   \<and> (\<exists>pre post. invalidComposition n = pre @ n @ post)"
proof (intro conjI impI)
  assume "\<exists>j<length ms. offending (ms ! j)"
  then obtain j0 where j0: "j0 < length ms" "offending (ms ! j0)" by blast
  show "\<exists>j<length ms. offending (ms ! j)
             \<and> ensureCompositeModels ms = Inl (invalidComposition (pm_name (ms ! j)))"
  proof (cases "ensureCompositeModels ms")
    case (Inl e)
    from ensure_error [OF Inl] Inl show ?thesis by auto
  next
    case (Inr st)
    from ensure_success [OF Inr] j0 offending_isComposed
    have "j0 \<in> set (cs_entered st)" and "extends ms initialComposite st (cs_entered st)" by auto
    then have "\<not> offending (ms ! j0)" by (simp add: extends_def list_all_iff)
    with j0 show ?thesis by simp
  qed
next
  assume none: "\<forall>j<length ms. \<not> offending (ms ! j)"
  show "\<not> isl (ensureCompositeModels ms)"
  proof (cases "ensureCompositeModels ms")
    case (Inl e)
    from ensure_error [OF Inl] none show ?thesis by blast
  next
    case (Inr st)
    then show ?thesis by simp
  qed
next
  show "\<exists>pre post. invalidComposition n = pre @ n @ post"
    unfolding invalidComposition_def by (metis append.assoc)
qed

theorem allOf_validity_witness:
  "ensureCompositeModels mixedAllOf = Inl (invalidComposition ''Mixed'')
   \<and> \<not> isl (ensureCompositeModels allOfChain)"
proof -
  have h1: "\<exists>j<length mixedAllOf. offending (mixedAllOf ! j)"
    by (rule exI [of _ 0])
       (simp add: mixedAllOf_def offending_def composedPrimitivesOf_def refMember_def)
  have one: "\<not> offending (mixedAllOf ! 1)"
    by (simp add: mixedAllOf_def offending_def)
  from allOf_validity [of mixedAllOf] h1 obtain j where
    j: "j < length mixedAllOf" "offending (mixedAllOf ! j)"
       "ensureCompositeModels mixedAllOf = Inl (invalidComposition (pm_name (mixedAllOf ! j)))"
    by blast
  from j(1) have "j = 0 \<or> j = 1" by (auto simp: mixedAllOf_def)
  with j(2) one have "j = 0" by auto
  with j(3) have a: "ensureCompositeModels mixedAllOf = Inl (invalidComposition ''Mixed'')"
    by (simp add: mixedAllOf_def)
  have h2: "\<forall>j<length allOfChain. \<not> offending (allOfChain ! j)"
    by (auto simp: allOfChain_def offending_def composedPrimitivesOf_def refMember_def
          less_Suc_eq numeral_3_eq_3)
  from allOf_validity [of allOfChain] h2 have "\<not> isl (ensureCompositeModels allOfChain)"
    by blast
  with a show ?thesis by simp
qed

text \<open>
  Claim C3, amended. After a composite resolution that raises no error, the
  \<open>composedModels\<close> of a composed model is the list of its direct reference members that
  name a model, in the order of declaration and with repetitions, and its
  \<open>composedPrimitives\<close> the list of its other unnamed members. The members of members are
  not copied into the list: each member that is composed has its own \<open>composedModels\<close>
  resolved by the same pass.
\<close>

theorem composedModels_direct:
  assumes ok: "ensureCompositeModels ms = Inr st" and i: "i < length ms" and c: "isComposed (ms ! i)"
  shows "cs_composedModels st i = Some (composedModelsOf ms (ms ! i))
         \<and> cs_composedPrimitives st i = Some (composedPrimitivesOf (ms ! i))
         \<and> list_all (\<lambda>j. j < length ms
                  \<and> (isComposed (ms ! j) \<longrightarrow> cs_composedModels st j = Some (composedModelsOf ms (ms ! j))))
             (composedModelsOf ms (ms ! i))"
proof -
  from ensure_success [OF ok] have
    ext: "extends ms initialComposite st (cs_entered st)"
    and all: "\<forall>j<length ms. isComposed (ms ! j) \<longrightarrow> j \<in> set (cs_entered st)" by simp_all
  have res: "cs_composedModels st j = Some (composedModelsOf ms (ms ! j))
         \<and> cs_composedPrimitives st j = Some (composedPrimitivesOf (ms ! j))"
    if "j < length ms" "isComposed (ms ! j)" for j
    using ext all that by (simp add: extends_def list_all_iff)
  have "j < length ms" if "j \<in> set (composedModelsOf ms (ms ! i))" for j
    using that composedModelsOf_range [of ms "ms ! i"] by auto
  with res show ?thesis
    using i c by (simp add: list_all_iff)
qed

theorem composedModels_direct_witness:
  "(case ensureCompositeModels allOfChain of
      Inl e \<Rightarrow> False
    | Inr st \<Rightarrow> cs_composedModels st 0 = Some [1] \<and> cs_composedModels st 1 = Some [2, 2])"
proof (cases "ensureCompositeModels allOfChain")
  case (Inl e)
  moreover have "\<not> isl (ensureCompositeModels allOfChain)" by code_simp
  ultimately show ?thesis by simp
next
  case (Inr st)
  have c0: "isComposed (allOfChain ! 0)" and c1: "isComposed (allOfChain ! 1)"
    by (simp_all add: allOfChain_def isComposed_def COMPOSED_SCHEMA_TYPES_def)
  have l0: "0 < length allOfChain" and l1: "1 < length allOfChain"
    by (simp_all add: allOfChain_def)
  have m0: "composedModelsOf allOfChain (allOfChain ! 0) = [1]" by code_simp
  have m1: "composedModelsOf allOfChain (allOfChain ! 1) = [2, 2]" by code_simp
  from composedModels_direct [OF Inr l0 c0] composedModels_direct [OF Inr l1 c1] m0 m1
  show ?thesis by (simp add: Inr)
qed

text \<open>
  The list of \<open>A\<close>, an \<open>allOf\<close> of \<open>B\<close>, holds \<open>B\<close> alone, although \<open>B\<close> is an \<open>allOf\<close>
  of \<open>C\<close>; and the list of \<open>B\<close>, which names \<open>C\<close> twice, holds \<open>C\<close> twice.
\<close>

theorem composedModels_flattening_counterexample:
  "(case ensureCompositeModels allOfChain of Inl e \<Rightarrow> None | Inr st \<Rightarrow> cs_composedModels st 0)
     = Some [1]
   \<and> composedModelsOf allOfChain (allOfChain ! 1) = [2, 2]
   \<and> (case ensureCompositeModels allOfChain of Inl e \<Rightarrow> None | Inr st \<Rightarrow> cs_composedModels st 1)
     = Some [2, 2]"
  by code_simp

section \<open>Schemas and hoisting\<close>

text \<open>
  An OpenAPI schema as the hoisting pass reads it: a reference object, or a schema object
  with its \<open>type\<close>, \<open>title\<close>, \<open>enum\<close>, \<open>not\<close>, the three compositions, \<open>items\<close>,
  \<open>properties\<close> (in the order of the keys), \<open>additionalProperties\<close> (a boolean or a
  schema) and the extension \<open>x-tsapi-hoisted\<close>. An absent key is \<open>None\<close>; the other keys of
  a schema object are not read by the pass and are left out.
\<close>

datatype schema =
    Ref string
  | Schema (s_type: "string option") (s_title: "string option") (s_enum: "string list option")
      (s_not: "schema option")
      (s_anyOf: "schema list option") (s_allOf: "schema list option") (s_oneOf: "schema list option")
      (s_items: "schema option") (s_properties: "(string \<times> schema) list option")
      (s_additionalProperties: "additional option") (s_hoisted: bool)
and additional = ABool bool | ASchema schema

definition isRef :: "schema \<Rightarrow> bool" where
  "isRef s = (case s of Ref r \<Rightarrow> True | _ \<Rightarrow> False)"

definition isCompositeSchema :: "schema \<Rightarrow> bool" where
  "isCompositeSchema s = (s_allOf s \<noteq> None \<or> s_anyOf s \<noteq> None \<or> s_oneOf s \<noteq> None)"

definition isStringEnum :: "schema \<Rightarrow> bool" where
  "isStringEnum s = (s_type s = Some ''string'' \<and> s_enum s \<noteq> None)"


text \<open>
  The filter of \<open>hoistInlineObjectSubSchemas\<close> that selects the sub-schemas to hoist: an
  object with \<open>properties\<close>, a composite, or a string enum.
\<close>

definition isHoisted :: "schema \<Rightarrow> bool" where
  "isHoisted s = ((s_type s = Some ''object'' \<and> s_properties s \<noteq> None)
                  \<or> isCompositeSchema s \<or> isStringEnum s)"



definition schemaRef :: "string \<Rightarrow> schema" where
  "schemaRef name = Ref (''#/components/schemas/'' @ name)"











text \<open>
  The closure as the specification words it: below the schema, at any depth and whatever
  lies between, every schema is a reference or is none of the three shapes.
\<close>

fun inlineFree :: "schema \<Rightarrow> bool"
  and inlineFreeList :: "schema list \<Rightarrow> bool"
  and inlineFreeProperties :: "(string \<times> schema) list \<Rightarrow> bool" where
  "inlineFree (Ref r) = True"
| "inlineFree (Schema ty ti en nt an al on it pr ad h) =
     ((case nt of None \<Rightarrow> True | Some c \<Rightarrow> (isRef c \<or> \<not> isHoisted c) \<and> inlineFree c)
      \<and> (case an of None \<Rightarrow> True | Some cs \<Rightarrow> inlineFreeList cs)
      \<and> (case al of None \<Rightarrow> True | Some cs \<Rightarrow> inlineFreeList cs)
      \<and> (case on of None \<Rightarrow> True | Some cs \<Rightarrow> inlineFreeList cs)
      \<and> (case it of None \<Rightarrow> True | Some c \<Rightarrow> (isRef c \<or> \<not> isHoisted c) \<and> inlineFree c)
      \<and> (case pr of None \<Rightarrow> True | Some ps \<Rightarrow> inlineFreeProperties ps)
      \<and> (case ad of None \<Rightarrow> True | Some (ABool b) \<Rightarrow> True
          | Some (ASchema c) \<Rightarrow> (isRef c \<or> \<not> isHoisted c) \<and> inlineFree c))"
| "inlineFreeList [] = True"
| "inlineFreeList (c # cs) = (((isRef c \<or> \<not> isHoisted c) \<and> inlineFree c) \<and> inlineFreeList cs)"
| "inlineFreeProperties [] = True"
| "inlineFreeProperties (p # ps) =
     (((isRef (snd p) \<or> \<not> isHoisted (snd p)) \<and> inlineFree (snd p)) \<and> inlineFreeProperties ps)"



section \<open>The document and the hoisting passes of \<open>buildData\<close>\<close>

text \<open>
  The part of the document that the passes read: for each path and method an operation
  with its \<open>operationId\<close>, its responses by status code and its request body; and, under
  \<open>components\<close>, the responses, the request bodies and the schemas. Objects are lists of
  keys and values in the order of the keys. A response or a request body is an object with
  its content by media type (\<open>None\<close> without the key \<open>content\<close>), or a reference to an
  entry of \<open>components.responses\<close> or \<open>components.requestBodies\<close>; references to other
  places of the document are not embedded, and an operation stands in its place.
\<close>

type_synonym content = "(string \<times> schema option) list"

datatype place = ResponsePlace string | RequestBodyPlace string

datatype body = BodyRef place | Body "content option"

record operation =
  op_operationId :: "string option"
  op_responses :: "(string \<times> body) list option"
  op_requestBody :: "body option"

record components =
  c_responses :: "(string \<times> body) list"
  c_requestBodies :: "(string \<times> body) list"
  c_schemas :: "(string \<times> schema) list"

record document =
  d_paths :: "(string \<times> (string \<times> operation) list) list"
  d_components :: components

text \<open>\<open>object[key] = value\<close>: the value of an existing key is replaced, a new key comes last.\<close>

fun assign :: "string \<Rightarrow> 'v \<Rightarrow> (string \<times> 'v) list \<Rightarrow> (string \<times> 'v) list" where
  "assign k v [] = [(k, v)]"
| "assign k v (p # ps) = (if fst p = k then (k, v) # ps else p # assign k v ps)"

text \<open>\<open>content?.['application/json']?.schema\<close>, and the test of a body to hoist.\<close>

definition jsonSchema :: "content option \<Rightarrow> schema option" where
  "jsonSchema c =
     (case c of
        None \<Rightarrow> None
      | Some ms \<Rightarrow> (case map_of ms ''application/json'' of None \<Rightarrow> None | Some m \<Rightarrow> m))"

definition isInlineBody :: "schema option \<Rightarrow> bool" where
  "isInlineBody js =
     (case js of
        None \<Rightarrow> False
      | Some s \<Rightarrow> \<not> isRef s \<and> (s_type s = Some ''object'' \<or> s_type s = Some ''array''))"

definition setJsonSchema :: "schema \<Rightarrow> content option \<Rightarrow> content option" where
  "setJsonSchema s c = map_option (assign ''application/json'' (Some s)) c"

text \<open>\<open>_upperFirst(_camelCase(operation.operationId ?? `${path}-${method}`))\<close>.\<close>

definition bodyNamePrefix :: "string option \<Rightarrow> string \<Rightarrow> string \<Rightarrow> string" where
  "bodyNamePrefix operationId path method =
     upperFirst (camelCase (case operationId of Some i \<Rightarrow> i | None \<Rightarrow> path @ ''-'' @ method))"

text \<open>
  \<open>resolveRef\<close> for a reference to a response or a request body: the entry of that name, and
  the pass throws when there is none. \<open>putPlace\<close> stands for the assignment to the content
  of the entry that the reference resolved to.
\<close>

definition atPlace :: "components \<Rightarrow> place \<Rightarrow> body option" where
  "atPlace c p =
     (case p of
        ResponsePlace n \<Rightarrow> map_of (c_responses c) n
      | RequestBodyPlace n \<Rightarrow> map_of (c_requestBodies c) n)"

definition putPlace :: "place \<Rightarrow> body \<Rightarrow> components \<Rightarrow> components" where
  "putPlace p b c =
     (case p of
        ResponsePlace n \<Rightarrow> c\<lparr>c_responses := assign n b (c_responses c)\<rparr>
      | RequestBodyPlace n \<Rightarrow> c\<lparr>c_requestBodies := assign n b (c_requestBodies c)\<rparr>)"

text \<open>
  The state of the pass over the operations: the components, which it changes, and the
  schemas it has registered, with their names, in the order of the pass. The second field
  only records what the pass did.
\<close>

record hoist_state =
  hs_components :: components
  hs_registered :: "(string \<times> schema) list"

definition register :: "string \<Rightarrow> schema \<Rightarrow> hoist_state \<Rightarrow> hoist_state" where
  "register name s st =
     \<lparr>hs_components = (hs_components st)\<lparr>c_schemas := assign name s (c_schemas (hs_components st))\<rparr>,
      hs_registered = hs_registered st @ [(name, s)]\<rparr>"

text \<open>
  What the pass does with one response or request body, \<open>schemaName\<close> being the name made
  for it: the object is resolved when it is a reference (one step, so a reference that
  leads to another reference has no content); when its JSON schema is in line and typed
  \<open>object\<close> or \<open>array\<close>, the schema is registered under the name and a reference takes
  its place in the content. \<open>Inl\<close> is the reference that did not resolve.
\<close>

definition hoistBody :: "string \<Rightarrow> body \<Rightarrow> hoist_state \<Rightarrow> place + body \<times> hoist_state" where
  "hoistBody schemaName b st =
     (case b of
        Body ct \<Rightarrow>
          if isInlineBody (jsonSchema ct)
          then Inr (Body (setJsonSchema (schemaRef schemaName) ct),
                    register schemaName (the (jsonSchema ct)) st)
          else Inr (b, st)
      | BodyRef p \<Rightarrow>
          (case atPlace (hs_components st) p of
             None \<Rightarrow> Inl p
           | Some (BodyRef q) \<Rightarrow> Inr (b, st)
           | Some (Body ct) \<Rightarrow>
               if isInlineBody (jsonSchema ct)
               then Inr (b, (register schemaName (the (jsonSchema ct)) st)
                              \<lparr>hs_components :=
                                 putPlace p (Body (setJsonSchema (schemaRef schemaName) ct))
                                   (hs_components (register schemaName (the (jsonSchema ct)) st))\<rparr>)
               else Inr (b, st)))"

text \<open>
  \<open>Object.entries(object).forEach(f)\<close> for an \<open>f\<close> that changes the state and may throw:
  the entries are taken in their order, and the result holds under each key what \<open>f\<close>
  leaves there.
\<close>

fun forEachEntry ::
  "(string \<times> 'a \<Rightarrow> 's \<Rightarrow> 'e + 'b \<times> 's) \<Rightarrow> (string \<times> 'a) list \<Rightarrow> 's
     \<Rightarrow> 'e + (string \<times> 'b) list \<times> 's" where
  "forEachEntry f [] st = Inr ([], st)"
| "forEachEntry f (e # es) st =
     (case f e st of
        Inl x \<Rightarrow> Inl x
      | Inr (b, st1) \<Rightarrow>
          (case forEachEntry f es st1 of
             Inl x \<Rightarrow> Inl x
           | Inr (es', st2) \<Rightarrow> Inr ((fst e, b) # es', st2)))"

text \<open>
  The loops of the pass: over the responses of an operation, over the operations of a path
  and over the paths. For an operation the responses come first, then the request body.
\<close>

definition hoistResponses ::
  "string \<Rightarrow> (string \<times> body) list \<Rightarrow> hoist_state \<Rightarrow> place + (string \<times> body) list \<times> hoist_state" where
  "hoistResponses prefix rs st =
     forEachEntry (\<lambda>r. hoistBody (prefix @ fst r @ ''Response'') (snd r)) rs st"

definition hoistOperation ::
  "string \<Rightarrow> string \<Rightarrow> operation \<Rightarrow> hoist_state \<Rightarrow> place + operation \<times> hoist_state" where
  "hoistOperation path method operation st =
     (let prefix = bodyNamePrefix (op_operationId operation) path method in
      case (case op_responses operation of
              None \<Rightarrow> Inr (None, st)
            | Some rs \<Rightarrow> (case hoistResponses prefix rs st of
                           Inl p \<Rightarrow> Inl p
                         | Inr (rs', st1) \<Rightarrow> Inr (Some rs', st1))) of
        Inl p \<Rightarrow> Inl p
      | Inr (responses', st1) \<Rightarrow>
          (case op_requestBody operation of
             None \<Rightarrow> Inr (operation\<lparr>op_responses := responses'\<rparr>, st1)
           | Some rb \<Rightarrow>
               (case hoistBody (prefix @ ''RequestContent'') rb st1 of
                  Inl p \<Rightarrow> Inl p
                | Inr (rb', st2) \<Rightarrow>
                    Inr (operation\<lparr>op_responses := responses', op_requestBody := Some rb'\<rparr>, st2))))"

definition hoistPathOperations ::
  "string \<Rightarrow> (string \<times> operation) list \<Rightarrow> hoist_state
     \<Rightarrow> place + (string \<times> operation) list \<times> hoist_state" where
  "hoistPathOperations path mos st =
     forEachEntry (\<lambda>mo. hoistOperation path (fst mo) (snd mo)) mos st"

definition hoistPaths ::
  "(string \<times> (string \<times> operation) list) list \<Rightarrow> hoist_state
     \<Rightarrow> place + (string \<times> (string \<times> operation) list) list \<times> hoist_state" where
  "hoistPaths ps st = forEachEntry (\<lambda>p. hoistPathOperations (fst p) (snd p)) ps st"

text \<open>The pass over the operations of a document, from the components as they stand.\<close>

definition hoistOperationBodies ::
  "document \<Rightarrow> place + (string \<times> (string \<times> operation) list) list \<times> hoist_state" where
  "hoistOperationBodies spec =
     hoistPaths (d_paths spec) \<lparr>hs_components = d_components spec, hs_registered = []\<rparr>"

















text \<open>The response under a status code of the operation at a path and method.\<close>

definition operationAt ::
  "(string \<times> (string \<times> operation) list) list \<Rightarrow> string \<Rightarrow> string \<Rightarrow> operation option" where
  "operationAt paths path method =
     (case map_of paths path of None \<Rightarrow> None | Some mos \<Rightarrow> map_of mos method)"

definition responseAt ::
  "(string \<times> (string \<times> operation) list) list \<Rightarrow> string \<Rightarrow> string \<Rightarrow> string \<Rightarrow> body option" where
  "responseAt paths path method code =
     (case operationAt paths path method of
        None \<Rightarrow> None
      | Some operation \<Rightarrow>
          (case op_responses operation of None \<Rightarrow> None | Some rs \<Rightarrow> map_of rs code))"




text \<open>Documents for the examples.\<close>

definition stringSchema :: schema where
  "stringSchema = Schema (Some ''string'') None None None None None None None None None False"

definition objectSchema :: "(string \<times> schema) list \<Rightarrow> schema" where
  "objectSchema ps = Schema (Some ''object'') None None None None None None None (Some ps) None False"

definition jsonBody :: "schema \<Rightarrow> body" where
  "jsonBody s = Body (Some [(''application/json'', Some s)])"

definition noComponents :: components where
  "noComponents = \<lparr>c_responses = [], c_requestBodies = [], c_schemas = []\<rparr>"








section \<open>Properties of hoisting\<close>

















































































section \<open>Response codes and the default response\<close>

text \<open>
  A response model of the parser: its numeric \<open>code\<close> and, as one value, everything else
  that \<open>getOperationResponse\<close> derives from the response object of the specification.
  \<open>describe\<close> stands for that derivation, which belongs to the parser. Two models are
  equal exactly when \<open>_isEqual\<close> holds of them.
\<close>

record 'b response_model =
  rm_code :: nat
  rm_body :: 'b

definition getOperationResponse :: "('r \<Rightarrow> 'b) \<Rightarrow> 'r \<Rightarrow> nat \<Rightarrow> 'b response_model" where
  "getOperationResponse describe response code = \<lparr>rm_code = code, rm_body = describe response\<rparr>"

text \<open>
  \<open>getOperationResponses\<close> of the parser, as far as the loop depends on it: one model for
  each declared response whose key gives a status code, sorted by code, models of the same
  code staying in the order of their keys. \<open>specResponses\<close> holds the declared responses
  in the order in which the keys are enumerated (those that are numbers first, in
  ascending order), each resolved when it is a reference. \<open>codeOf\<close> is the parser's
  reading of a key, which gives 200 for the key \<open>default\<close>, and a key read as 0 or not at
  all is dropped.
\<close>

definition getOperationResponses ::
  "('r \<Rightarrow> 'b) \<Rightarrow> (string \<Rightarrow> nat option) \<Rightarrow> (string \<times> 'r) list \<Rightarrow> 'b response_model list" where
  "getOperationResponses describe codeOf specResponses =
     sort_key rm_code
       (concat (map (\<lambda>kr. case codeOf (fst kr) of
                            None \<Rightarrow> []
                          | Some c \<Rightarrow> if c = 0 then [] else [getOperationResponse describe (snd kr) c])
                  specResponses))"

text \<open>
  The test and the assignment at the head of the loop over \<open>[...responses, ...op.results]\<close>:
  a response with code 200 that equals the model of the default response gets code 0.
  \<open>defaultResponse\<close> is the resolved \<open>specOp.responses['default']\<close>, \<open>None\<close> when the
  operation declares none.
\<close>

definition aliasDefault ::
  "('r \<Rightarrow> 'b) \<Rightarrow> 'r option \<Rightarrow> 'b response_model \<Rightarrow> 'b response_model" where
  "aliasDefault describe defaultResponse response =
     (case defaultResponse of
        None \<Rightarrow> response
      | Some d \<Rightarrow> if rm_code response = 200 \<and> response = getOperationResponse describe d 200
                  then response\<lparr>rm_code := 0\<rparr> else response)"

text \<open>
  The loop, as far as the codes go: \<open>results\<close> is \<open>op.results\<close>, the models the parser
  keeps with the operation, and the result gives \<open>op.responses\<close> and \<open>op.results\<close> as the
  loop leaves them.
\<close>

definition normalizeResponseCodes ::
  "('r \<Rightarrow> 'b) \<Rightarrow> (string \<Rightarrow> nat option) \<Rightarrow> (string \<times> 'r) list \<Rightarrow> 'b response_model list
     \<Rightarrow> 'b response_model list \<times> 'b response_model list" where
  "normalizeResponseCodes describe codeOf specResponses results =
     (map (aliasDefault describe (map_of specResponses ''default''))
        (getOperationResponses describe codeOf specResponses),
      map (aliasDefault describe (map_of specResponses ''default'')) results)"

text \<open>A reading of the keys for the examples: \<open>default\<close> and two status codes.\<close>

definition exampleCodeOf :: "string \<Rightarrow> nat option" where
  "exampleCodeOf k =
     (if k = ''default'' then Some 200 else if k = ''200'' then Some 200
      else if k = ''404'' then Some 404 else None)"

text \<open>
  An operation that declares the same object, inline, under \<open>200\<close> and under \<open>default\<close>.
\<close>

definition sameBodyDocument :: document where
  "sameBodyDocument =
     \<lparr>d_paths = [(''/things'', [(''get'',
          \<lparr>op_operationId = Some ''getThing'',
           op_responses = Some [(''200'', jsonBody (objectSchema [(''name'', stringSchema)])),
                               (''default'', jsonBody (objectSchema [(''name'', stringSchema)]))],
           op_requestBody = None\<rparr>)])],
      d_components = noComponents\<rparr>"

section \<open>Properties of the default response\<close>

lemma aliasDefault_cases:
  "aliasDefault describe (Some d) r
   = (if r = \<lparr>rm_code = 200, rm_body = describe d\<rparr> then \<lparr>rm_code = 0, rm_body = describe d\<rparr> else r)"
  by (cases r) (auto simp: aliasDefault_def getOperationResponse_def)

lemma filter_concat_length:
  "length (filter P (concat (map f xs))) = sum_list (map (\<lambda>x. length (filter P (f x))) xs)"
  by (induction xs) simp_all

lemma sum_list_two:
  fixes g :: "'a \<Rightarrow> nat"
  assumes "a \<in> set xs" and "b \<in> set xs" and "a \<noteq> b"
  shows "g a + g b \<le> sum_list (map g xs)"
  using assms
proof (induction xs)
  case Nil
  then show ?case by simp
next
  case (Cons x xs)
  have one: "y \<in> set xs \<Longrightarrow> g y \<le> sum_list (map g xs)" for y
    by (simp add: member_le_sum_list)
  show ?case
  proof (cases "x = a")
    case True
    with Cons.prems have "b \<in> set xs" by auto
    from one [OF this] True show ?thesis by simp
  next
    case na: False
    show ?thesis
    proof (cases "x = b")
      case True
      with Cons.prems na have "a \<in> set xs" by auto
      from one [OF this] True show ?thesis by simp
    next
      case False
      with na Cons.prems have "a \<in> set xs" "b \<in> set xs" by auto
      from Cons.IH [OF this Cons.prems(3)] show ?thesis by simp
    qed
  qed
qed

lemma getOperationResponses_mem:
  assumes "(k, r) \<in> set specResponses" and "codeOf k = Some c" and "c \<noteq> 0"
  shows "\<lparr>rm_code = c, rm_body = describe r\<rparr>
         \<in> set (getOperationResponses describe codeOf specResponses)"
proof -
  let ?f = "\<lambda>kr. case codeOf (fst kr) of
                          None \<Rightarrow> []
                        | Some c \<Rightarrow> if c = 0 then [] else [getOperationResponse describe (snd kr) c]"
  have "\<lparr>rm_code = c, rm_body = describe r\<rparr> \<in> set (?f (k, r))"
    using assms(2,3) by (simp add: getOperationResponse_def)
  with assms(1) have "\<exists>kr\<in>set specResponses. \<lparr>rm_code = c, rm_body = describe r\<rparr> \<in> set (?f kr)"
    by (rule rev_bexI)
  then show ?thesis
    unfolding getOperationResponses_def by simp
qed

lemma getOperationResponses_twice:
  assumes a: "(ka, ra) \<in> set specResponses" and b: "(kb, rb) \<in> set specResponses"
    and ne: "ka \<noteq> kb"
    and ca: "codeOf ka = Some 200" and cb: "codeOf kb = Some 200"
    and e: "describe ra = describe rb"
  shows "2 \<le> length (filter (\<lambda>x. x = \<lparr>rm_code = 200, rm_body = describe rb\<rparr>)
                       (getOperationResponses describe codeOf specResponses))"
proof -
  let ?P = "\<lambda>x. x = \<lparr>rm_code = 200, rm_body = describe rb\<rparr>"
  let ?f = "\<lambda>kr. case codeOf (fst kr) of
                          None \<Rightarrow> []
                        | Some c \<Rightarrow> if c = 0 then [] else [getOperationResponse describe (snd kr) c]"
  let ?g = "\<lambda>kr. length (filter ?P (?f kr))"
  have "?g (ka, ra) = 1" using ca e by (simp add: getOperationResponse_def)
  moreover have "?g (kb, rb) = 1" using cb by (simp add: getOperationResponse_def)
  moreover from ne have "(ka, ra) \<noteq> (kb, rb)" by simp
  from sum_list_two [OF a b this, of ?g]
  have "?g (ka, ra) + ?g (kb, rb) \<le> length (filter ?P (concat (map ?f specResponses)))"
    by (simp only: filter_concat_length)
  ultimately have "2 \<le> length (filter ?P (concat (map ?f specResponses)))" by simp
  also have "\<dots> = length (filter ?P (getOperationResponses describe codeOf specResponses))"
    unfolding getOperationResponses_def by (simp only: filter_sort length_sort)
  finally show ?thesis .
qed

lemma recoded_count:
  "length (filter (\<lambda>x. x = \<lparr>rm_code = 0, rm_body = v\<rparr>)
     (map (\<lambda>x. if x = \<lparr>rm_code = 200, rm_body = v\<rparr> then \<lparr>rm_code = 0, rm_body = v\<rparr> else x) xs))
   \<ge> length (filter (\<lambda>x. x = \<lparr>rm_code = 200, rm_body = v\<rparr>) xs)"
  by (induction xs) auto

text \<open>
  Claim C5, amended. Let the operation declare a default response and a response under
  \<open>200\<close>, the parser reading both keys as the code 200. After the normalization
  \<open>op.responses\<close> and \<open>op.results\<close> are the models of the parser in their order, each
  model of code 200 that equals the model of the default response recoded to 0 and the
  others as they were. When the model of the \<open>200\<close> response equals that of the default
  response, at least two entries of \<open>op.responses\<close> carry it under the code 0: that of
  the \<open>200\<close> response and that of the default response, which stays an entry of its own.
  When the two models differ, the entry of the \<open>200\<close> response keeps the code 200, and the
  entry of the default response has the code 0 all the same.
\<close>

theorem default_aliasing:
  assumes d: "map_of specResponses ''default'' = Some rdef"
    and r: "(''200'', r200) \<in> set specResponses"
    and c: "codeOf ''200'' = Some 200"
    and cd: "codeOf ''default'' = Some 200"
  shows "normalizeResponseCodes describe codeOf specResponses results
         = (map (\<lambda>x. if x = \<lparr>rm_code = 200, rm_body = describe rdef\<rparr>
                      then \<lparr>rm_code = 0, rm_body = describe rdef\<rparr> else x)
              (getOperationResponses describe codeOf specResponses),
            map (\<lambda>x. if x = \<lparr>rm_code = 200, rm_body = describe rdef\<rparr>
                      then \<lparr>rm_code = 0, rm_body = describe rdef\<rparr> else x) results)
         \<and> (describe r200 = describe rdef
            \<longrightarrow> 2 \<le> length (filter (\<lambda>x. x = \<lparr>rm_code = 0, rm_body = describe rdef\<rparr>)
                             (fst (normalizeResponseCodes describe codeOf specResponses results))))
         \<and> (describe r200 \<noteq> describe rdef
            \<longrightarrow> \<lparr>rm_code = 200, rm_body = describe r200\<rparr>
                  \<in> set (fst (normalizeResponseCodes describe codeOf specResponses results)))
         \<and> \<lparr>rm_code = 0, rm_body = describe rdef\<rparr>
             \<in> set (fst (normalizeResponseCodes describe codeOf specResponses results))"
proof -
  let ?rs = "getOperationResponses describe codeOf specResponses"
  let ?f = "\<lambda>x. if x = \<lparr>rm_code = 200, rm_body = describe rdef\<rparr>
                 then \<lparr>rm_code = 0, rm_body = describe rdef\<rparr> else x"
  have n: "normalizeResponseCodes describe codeOf specResponses results = (map ?f ?rs, map ?f results)"
    by (simp add: normalizeResponseCodes_def d aliasDefault_cases)
  from d have dm: "(''default'', rdef) \<in> set specResponses" by (rule map_of_SomeD)
  have m: "\<lparr>rm_code = 200, rm_body = describe r200\<rparr> \<in> set ?rs"
    using getOperationResponses_mem [where describe = describe and codeOf = codeOf and c = 200] r c
    by simp
  have md: "\<lparr>rm_code = 200, rm_body = describe rdef\<rparr> \<in> set ?rs"
    using getOperationResponses_mem [where describe = describe and codeOf = codeOf and c = 200] dm cd
    by simp
  have 2: "2 \<le> length (filter (\<lambda>x. x = \<lparr>rm_code = 0, rm_body = describe rdef\<rparr>) (map ?f ?rs))"
    if e: "describe r200 = describe rdef"
  proof -
    have "(2::nat) \<le> length (filter (\<lambda>x. x = \<lparr>rm_code = 200, rm_body = describe rdef\<rparr>) ?rs)"
      by (rule getOperationResponses_twice [OF r dm _ c cd e]) simp
    also have "\<dots> \<le> length (filter (\<lambda>x. x = \<lparr>rm_code = 0, rm_body = describe rdef\<rparr>) (map ?f ?rs))"
      by (rule recoded_count)
    finally show ?thesis .
  qed
  have 3: "\<lparr>rm_code = 200, rm_body = describe r200\<rparr> \<in> set (map ?f ?rs)"
    if e: "describe r200 \<noteq> describe rdef"
  proof -
    from e have "?f \<lparr>rm_code = 200, rm_body = describe r200\<rparr> = \<lparr>rm_code = 200, rm_body = describe r200\<rparr>"
      by simp
    with imageI [OF m, of ?f] show ?thesis unfolding set_map by simp
  qed
  have 4: "\<lparr>rm_code = 0, rm_body = describe rdef\<rparr> \<in> set (map ?f ?rs)"
    using imageI [OF md, of ?f] unfolding set_map by simp
  from 2 3 4 show ?thesis unfolding n fst_conv by blast
qed

theorem default_aliasing_witness:
  "normalizeResponseCodes (\<lambda>r. r) exampleCodeOf
       [(''200'', ''ok''), (''404'', ''missing''), (''default'', ''ok'')]
       [\<lparr>rm_code = 200, rm_body = ''ok''\<rparr>]
     = ([\<lparr>rm_code = 0, rm_body = ''ok''\<rparr>, \<lparr>rm_code = 0, rm_body = ''ok''\<rparr>,
         \<lparr>rm_code = 404, rm_body = ''missing''\<rparr>],
        [\<lparr>rm_code = 0, rm_body = ''ok''\<rparr>])
   \<and> 2 \<le> length (filter (\<lambda>x. x = \<lparr>rm_code = 0, rm_body = ''ok''\<rparr>)
                  (fst (normalizeResponseCodes (\<lambda>r. r) exampleCodeOf
                     [(''200'', ''ok''), (''404'', ''missing''), (''default'', ''ok'')]
                     [\<lparr>rm_code = 200, rm_body = ''ok''\<rparr>])))
   \<and> normalizeResponseCodes (\<lambda>r. r) exampleCodeOf
       [(''200'', ''ok''), (''default'', ''error'')] []
     = ([\<lparr>rm_code = 200, rm_body = ''ok''\<rparr>, \<lparr>rm_code = 0, rm_body = ''error''\<rparr>], [])"
proof -
  have a: "getOperationResponses (\<lambda>r. r) exampleCodeOf
             [(''200'', ''ok''), (''404'', ''missing''), (''default'', ''ok'')]
           = [\<lparr>rm_code = 200, rm_body = ''ok''\<rparr>, \<lparr>rm_code = 200, rm_body = ''ok''\<rparr>,
              \<lparr>rm_code = 404, rm_body = ''missing''\<rparr>]"
    by (simp add: getOperationResponses_def getOperationResponse_def exampleCodeOf_def)
  have b: "getOperationResponses (\<lambda>r. r) exampleCodeOf [(''200'', ''ok''), (''default'', ''error'')]
           = [\<lparr>rm_code = 200, rm_body = ''ok''\<rparr>, \<lparr>rm_code = 200, rm_body = ''error''\<rparr>]"
    by (simp add: getOperationResponses_def getOperationResponse_def exampleCodeOf_def)
  have c: "exampleCodeOf ''200'' = Some 200" "exampleCodeOf ''default'' = Some 200"
    by (simp_all add: exampleCodeOf_def)
  from default_aliasing [where describe = "\<lambda>r::string. r" and codeOf = exampleCodeOf
        and specResponses = "[(''200'', ''ok''), (''404'', ''missing''), (''default'', ''ok'')]"
        and rdef = "''ok''" and ?r200.0 = "''ok''"
        and results = "[\<lparr>rm_code = 200, rm_body = ''ok''\<rparr>]"] c a
  have 1: "normalizeResponseCodes (\<lambda>r. r) exampleCodeOf
       [(''200'', ''ok''), (''404'', ''missing''), (''default'', ''ok'')]
       [\<lparr>rm_code = 200, rm_body = ''ok''\<rparr>]
     = ([\<lparr>rm_code = 0, rm_body = ''ok''\<rparr>, \<lparr>rm_code = 0, rm_body = ''ok''\<rparr>,
         \<lparr>rm_code = 404, rm_body = ''missing''\<rparr>],
        [\<lparr>rm_code = 0, rm_body = ''ok''\<rparr>])"
    and 2: "2 \<le> length (filter (\<lambda>x. x = \<lparr>rm_code = 0, rm_body = ''ok''\<rparr>)
                  (fst (normalizeResponseCodes (\<lambda>r. r) exampleCodeOf
                     [(''200'', ''ok''), (''404'', ''missing''), (''default'', ''ok'')]
                     [\<lparr>rm_code = 200, rm_body = ''ok''\<rparr>])))"
    by simp_all
  from default_aliasing [where describe = "\<lambda>r::string. r" and codeOf = exampleCodeOf
        and specResponses = "[(''200'', ''ok''), (''default'', ''error'')]"
        and rdef = "''error''" and ?r200.0 = "''ok''" and results = "[]"] c b
  have 3: "normalizeResponseCodes (\<lambda>r. r) exampleCodeOf
       [(''200'', ''ok''), (''default'', ''error'')] []
     = ([\<lparr>rm_code = 200, rm_body = ''ok''\<rparr>, \<lparr>rm_code = 0, rm_body = ''error''\<rparr>], [])"
    by simp
  from 1 2 3 show ?thesis by blast
qed

text \<open>
  The claim as it stands fails in two ways. The default response stays an entry of its
  own: for a \<open>200\<close> response and an equal default response the list has two entries, both
  with the code 0. And what is compared are the models of the parser, read after the
  hoisting: the operation below declares the same object under \<open>200\<close> and under
  \<open>default\<close>, the hoisting puts a reference to a schema of its own into each, and for a
  reading of the responses that tells the two references apart the \<open>200\<close> response keeps
  its code.
\<close>

theorem default_aliasing_counterexample:
  "fst (normalizeResponseCodes (\<lambda>r. r) exampleCodeOf [(''200'', ''ok''), (''default'', ''ok'')] [])
     = [\<lparr>rm_code = 0, rm_body = ''ok''\<rparr>, \<lparr>rm_code = 0, rm_body = ''ok''\<rparr>]
   \<and> responseAt (d_paths sameBodyDocument) ''/things'' ''get'' ''200''
     = responseAt (d_paths sameBodyDocument) ''/things'' ''get'' ''default''
   \<and> (case hoistOperationBodies sameBodyDocument of
        Inl p \<Rightarrow> False
      | Inr (paths', st) \<Rightarrow>
          (case operationAt paths' ''/things'' ''get'' of
             None \<Rightarrow> False
           | Some operation \<Rightarrow>
               fst (normalizeResponseCodes (\<lambda>r. r) exampleCodeOf (the (op_responses operation)) [])
               = [\<lparr>rm_code = 200,
                   rm_body = jsonBody (Ref ''#/components/schemas/GetThing200Response'')\<rparr>,
                  \<lparr>rm_code = 0,
                   rm_body = jsonBody (Ref ''#/components/schemas/GetThingdefaultResponse'')\<rparr>]))"
  by code_simp

section \<open>The model graph\<close>

text \<open>
  The models of the parser as the enrichment passes walk them. The properties of a model
  are models of their own, made by the parser for this model alone. The \<open>link\<close> of an
  array or dictionary is absent, a model made by the parser for this place, or one of the
  models of \<open>data.models\<close>, which is how \<open>ensureModelLinks\<close> closes a cycle; \<open>Top j\<close>
  is the model at position \<open>j\<close> of \<open>data.models\<close>.
\<close>

datatype mnode =
  MNode (mn_name: string) (mn_export: string) (mn_link: mlink) (mn_properties: "mnode list")
and mlink = NoLink | Inline mnode | Top nat

text \<open>
  A model object is identified by the place where it sits: the position of a model of
  \<open>data.models\<close> and the way down from it, through the link (\<open>None\<close>) or the property
  at a position.
\<close>

type_synonym ident = "nat \<times> nat option list"

text \<open>Sub-schemas of a schema object; a reference object has none of the keys.\<close>

definition schemaItems :: "schema \<Rightarrow> schema option" where
  "schemaItems s = (case s of Ref r \<Rightarrow> None | Schema ty ti en nt an al on it pr ad h \<Rightarrow> it)"

definition schemaAdditional :: "schema \<Rightarrow> additional option" where
  "schemaAdditional s = (case s of Ref r \<Rightarrow> None | Schema ty ti en nt an al on it pr ad h \<Rightarrow> ad)"

definition schemaProperty :: "schema \<Rightarrow> string \<Rightarrow> schema option" where
  "schemaProperty s k =
     (case s of
        Ref r \<Rightarrow> None
      | Schema ty ti en nt an al on it pr ad h \<Rightarrow>
          (case pr of None \<Rightarrow> None | Some ps \<Rightarrow> map_of ps k))"

text \<open>\<open>schema[_camelCase(model.export)]?.[i]\<close> for a composed model.\<close>

definition schemaBranch :: "schema \<Rightarrow> string \<Rightarrow> nat \<Rightarrow> schema option" where
  "schemaBranch s export i =
     (case s of
        Ref r \<Rightarrow> None
      | Schema ty ti en nt an al on it pr ad h \<Rightarrow>
          (case (if camelCase export = ''oneOf'' then on
                 else if camelCase export = ''anyOf'' then an
                 else if camelCase export = ''allOf'' then al else None) of
             None \<Rightarrow> None
           | Some cs \<Rightarrow> if i < length cs then Some (cs ! i) else None))"

text \<open>\<open>_trim(name, `"'`)\<close>: the quotes at both ends are removed.\<close>

definition isQuote :: "char \<Rightarrow> bool" where
  "isQuote c = (c = CHR 0x22 \<or> c = CHR 0x27)"

definition trimQuotes :: "string \<Rightarrow> string" where
  "trimQuotes s = rev (dropWhile isQuote (rev (dropWhile isQuote s)))"

text \<open>
  \<open>splitRef\<close>: the text behind \<open>#/\<close> cut at every \<open>/\<close>, with \<open>~0\<close> and \<open>~1\<close> read back
  in each part.
\<close>

fun splitOn :: "char \<Rightarrow> string \<Rightarrow> string list" where
  "splitOn d [] = [[]]"
| "splitOn d (c # cs) =
     (if c = d then [] # splitOn d cs
      else (case splitOn d cs of [] \<Rightarrow> [[c]] | p # ps \<Rightarrow> (c # p) # ps))"

fun replacePair :: "char \<Rightarrow> char \<Rightarrow> char \<Rightarrow> string \<Rightarrow> string" where
  "replacePair a b r (x # y # cs) =
     (if x = a \<and> y = b then r # replacePair a b r cs else x # replacePair a b r (y # cs))"
| "replacePair a b r cs = cs"

definition splitRef :: "string \<Rightarrow> string list" where
  "splitRef ref =
     map (\<lambda>p. replacePair CHR ''~'' CHR ''1'' CHR ''/'' (replacePair CHR ''~'' CHR ''0'' CHR ''~'' p))
       (splitOn CHR ''/'' (drop 2 ref))"

text \<open>
  The document as the passes read it: what \<open>_get(spec, path)\<close> finds at a path, taken as
  a schema, and nothing where there is none. \<open>specOf\<close> is a document that holds nothing but
  the given \<open>components.schemas\<close>.
\<close>

type_synonym spec_get = "string list \<Rightarrow> schema option"

definition specOf :: "(string \<times> schema) list \<Rightarrow> spec_get" where
  "specOf schemas path =
     (case path of
        [a, b, n] \<Rightarrow> if a = ''components'' \<and> b = ''schemas'' then map_of schemas n else None
      | _ \<Rightarrow> None)"

text \<open>
  \<open>resolveRef\<close> and \<open>resolveIfRef\<close>: the reference is split and looked up as a path of
  the document; a reference under which nothing is found throws.
\<close>

definition resolveRef :: "spec_get \<Rightarrow> string \<Rightarrow> string + schema" where
  "resolveRef spec ref =
     (case spec (splitRef ref) of
        Some s \<Rightarrow> Inr s
      | None \<Rightarrow> Inl (''Unable to resolve ref '' @ ref @ '' in spec''))"

definition resolveIfRef :: "spec_get \<Rightarrow> schema \<Rightarrow> string + schema" where
  "resolveIfRef spec possibleRef =
     (case possibleRef of Ref r \<Rightarrow> resolveRef spec r | _ \<Rightarrow> Inr possibleRef)"

text \<open>
  \<open>splitRef(ref)[2]\<close>, the name that \<open>_ensureModelLinks\<close> looks up in the models; when
  the reference has no third part the key of the lookup is the text \<open>undefined\<close>.
\<close>

definition refModelName :: "string \<Rightarrow> string" where
  "refModelName ref = (if 2 < length (splitRef ref) then splitRef ref ! 2 else ''undefined'')"

text \<open>
  \<open>Object.fromEntries(data.models.map((m) => [m.name, m]))\<close> for the models of the graph:
  the position of the last model of a name.
\<close>

fun namesFrom :: "nat \<Rightarrow> string list \<Rightarrow> (string \<rightharpoonup> nat)" where
  "namesFrom k [] = Map.empty"
| "namesFrom k (n # ns) =
     (case namesFrom (Suc k) ns n of
        Some j \<Rightarrow> namesFrom (Suc k) ns
      | None \<Rightarrow> (namesFrom (Suc k) ns)(n \<mapsto> k))"

definition graphModelsByName :: "mnode list \<Rightarrow> (string \<rightharpoonup> nat)" where
  "graphModelsByName models = namesFrom 0 (map mn_name models)"

text \<open>
  The model behind a link, with its identity: the model made for the place sits one step
  below, a model of \<open>data.models\<close> at its own position.
\<close>

definition linkTarget :: "mnode list \<Rightarrow> ident \<Rightarrow> mlink \<Rightarrow> (ident \<times> mnode) option" where
  "linkTarget models ident l =
     (case l of
        NoLink \<Rightarrow> None
      | Inline c \<Rightarrow> Some ((fst ident, snd ident @ [None]), c)
      | Top j \<Rightarrow> if j < length models then Some ((j, []), models ! j) else None)"

text \<open>The properties of a model with their identities.\<close>

definition propertyIdents :: "ident \<Rightarrow> mnode list \<Rightarrow> (ident \<times> mnode) list" where
  "propertyIdents ident ps =
     map (\<lambda>k. ((fst ident, snd ident @ [Some k]), ps ! k)) [0..<length ps]"

section \<open>Completing the links\<close>

text \<open>
  The state of \<open>ensureModelLinks\<close>: the set \<open>visited\<close>, the links that the pass has set
  (the position in \<open>data.models\<close> under the identity of the array or dictionary), and, for
  the proofs only, the models whose body the pass has entered, in order.
\<close>

record link_state =
  ls_visited :: "ident list"
  ls_links :: "ident \<rightharpoonup> nat"
  ls_entered :: "ident list"

text \<open>
  The first half of the body of \<open>_ensureModelLinks\<close>, for a dictionary or an array: what
  it does with the schema of the values or items. It sets the link, goes on into the model
  behind the link with that schema, or does nothing.
\<close>

datatype link_step = SetLink nat | Descend ident mnode schema | Nothing

definition linkStepFor :: "mnode list \<Rightarrow> ident \<Rightarrow> mnode \<Rightarrow> schema \<Rightarrow> link_step" where
  "linkStepFor models ident model sub =
     (case sub of
        Ref r \<Rightarrow>
          (case graphModelsByName models (refModelName r) of
             None \<Rightarrow> Nothing
           | Some j \<Rightarrow> if mn_link model = NoLink then SetLink j else Nothing)
      | _ \<Rightarrow>
          (case linkTarget models ident (mn_link model) of
             None \<Rightarrow> Nothing
           | Some t \<Rightarrow> Descend (fst t) (snd t) sub))"

definition linkStep :: "mnode list \<Rightarrow> ident \<Rightarrow> mnode \<Rightarrow> schema \<Rightarrow> link_step" where
  "linkStep models ident model schema =
     (if mn_export model = ''dictionary''
         \<and> (case schemaAdditional schema of
               None \<Rightarrow> False | Some (ABool b) \<Rightarrow> b | Some (ASchema a) \<Rightarrow> True)
      then (case schemaAdditional schema of
              Some (ASchema a) \<Rightarrow> linkStepFor models ident model a
            | _ \<Rightarrow> Nothing)
      else if mn_export model = ''array'' \<and> schemaItems schema \<noteq> None
      then (case schemaItems schema of
              Some i \<Rightarrow> linkStepFor models ident model i
            | None \<Rightarrow> Nothing)
      else Nothing)"

text \<open>
  The properties that the filter of the third part of the body keeps: not visited, and
  with a schema under the trimmed name.
\<close>

definition selectedProperties ::
  "ident list \<Rightarrow> schema \<Rightarrow> (ident \<times> mnode) list \<Rightarrow> (ident \<times> mnode) list" where
  "selectedProperties visited schema ps =
     filter (\<lambda>p. fst p \<notin> set visited \<and> schemaProperty schema (trimQuotes (mn_name (snd p))) \<noteq> None) ps"


text \<open>
  \<open>_ensureModelLinks\<close>, with its two loops over the properties as functions of their own.
  A reference that does not resolve ends the pass with the error.
\<close>

function ensureModelLinksAt ::
    "spec_get \<Rightarrow> mnode list \<Rightarrow> ident \<Rightarrow> mnode \<Rightarrow> schema \<Rightarrow> link_state
       \<Rightarrow> string + link_state"
  and ensureLinksProperties ::
    "spec_get \<Rightarrow> mnode list \<Rightarrow> schema \<Rightarrow> (ident \<times> mnode) list \<Rightarrow> link_state
       \<Rightarrow> string + link_state"
  and ensureLinksBranches ::
    "spec_get \<Rightarrow> mnode list \<Rightarrow> schema \<Rightarrow> string \<Rightarrow> nat \<Rightarrow> (ident \<times> mnode) list
       \<Rightarrow> link_state \<Rightarrow> string + link_state" where
  "ensureModelLinksAt spec models ident model schema st =
     (if ident \<in> set (ls_visited st) then Inr st
      else
        (case (case linkStep models ident model schema of
                 SetLink j \<Rightarrow>
                   Inr (st\<lparr>ls_visited := ident # ls_visited st,
                           ls_links := (ls_links st)(ident \<mapsto> j),
                           ls_entered := ls_entered st @ [ident]\<rparr>)
               | Descend i m s \<Rightarrow>
                   ensureModelLinksAt spec models i m s
                     (st\<lparr>ls_visited := ident # ls_visited st,
                         ls_entered := ls_entered st @ [ident]\<rparr>)
               | Nothing \<Rightarrow>
                   Inr (st\<lparr>ls_visited := ident # ls_visited st,
                           ls_entered := ls_entered st @ [ident]\<rparr>)) of
           Inl e \<Rightarrow> Inl e
         | Inr st2 \<Rightarrow>
             (case ensureLinksProperties spec models schema
                     (selectedProperties (ls_visited st2) schema
                        (propertyIdents ident (mn_properties model))) st2 of
                Inl e \<Rightarrow> Inl e
              | Inr st3 \<Rightarrow>
                  if mn_export model \<in> set COMPOSED_SCHEMA_TYPES
                  then ensureLinksBranches spec models schema (mn_export model) 0
                         (propertyIdents ident (mn_properties model)) st3
                  else Inr st3)))"
| "ensureLinksProperties spec models schema [] st = Inr st"
| "ensureLinksProperties spec models schema (p # ps) st =
     (case schemaProperty schema (trimQuotes (mn_name (snd p))) of
        None \<Rightarrow> ensureLinksProperties spec models schema ps st
      | Some sub \<Rightarrow>
          (case resolveIfRef spec sub of
             Inl e \<Rightarrow> Inl e
           | Inr subSchema \<Rightarrow>
               (case ensureModelLinksAt spec models (fst p) (snd p) subSchema st of
                  Inl e \<Rightarrow> Inl e
                | Inr st' \<Rightarrow> ensureLinksProperties spec models schema ps st')))"
| "ensureLinksBranches spec models schema export i [] st = Inr st"
| "ensureLinksBranches spec models schema export i (p # ps) st =
     (case schemaBranch schema export i of
        None \<Rightarrow> ensureLinksBranches spec models schema export (Suc i) ps st
      | Some sub \<Rightarrow>
          (case resolveIfRef spec sub of
             Inl e \<Rightarrow> Inl e
           | Inr subSchema \<Rightarrow>
               (case ensureModelLinksAt spec models (fst p) (snd p) subSchema st of
                  Inl e \<Rightarrow> Inl e
                | Inr st' \<Rightarrow> ensureLinksBranches spec models schema export (Suc i) ps st')))"
  by pat_completeness auto


text \<open>
  The measure of the termination proofs: the models of \<open>data.models\<close> that are neither
  visited nor the one the call is for, then the size of what the call is for.
\<close>

definition rootsIn :: "ident list \<Rightarrow> nat set" where
  "rootsIn visited = {j. (j, []) \<in> set visited}"

definition selfRoot :: "ident \<Rightarrow> nat set" where
  "selfRoot ident = (if snd ident = [] then {fst ident} else {})"

definition weight :: "(ident \<times> mnode) list \<Rightarrow> nat" where
  "weight ps = size_list (\<lambda>p. size (snd p)) ps"

lemma rootsIn_Cons: "rootsIn (ident # visited) = selfRoot ident \<union> rootsIn visited"
  by (cases ident) (auto simp: rootsIn_def selfRoot_def)

lemma rootsIn_mono: "set v \<subseteq> set v' \<Longrightarrow> rootsIn v \<subseteq> rootsIn v'"
  by (auto simp: rootsIn_def)

lemma selfRoot_in: "ident \<in> set v \<Longrightarrow> selfRoot ident \<subseteq> rootsIn v"
  by (cases ident) (auto simp: rootsIn_def selfRoot_def)

lemma size_properties: "size_list size (mn_properties m) < size m"
  by (cases m) simp

lemma size_inline: "mn_link m = Inline c \<Longrightarrow> size c < size m"
  by (cases m) simp

lemma map_snd_propertyIdents: "map snd (propertyIdents ident ps) = ps"
  by (simp add: propertyIdents_def comp_def map_nth)

lemma weight_map_snd: "size_list size (map snd xs) = weight xs"
  unfolding weight_def by (induction xs) simp_all

lemma weight_propertyIdents: "weight (propertyIdents ident ps) = size_list size ps"
  using weight_map_snd [of "propertyIdents ident ps"]
  unfolding map_snd_propertyIdents by simp

lemma weight_filter: "weight (filter P ps) \<le> weight ps"
  by (induction ps) (simp_all add: weight_def)

lemma weight_selected:
  "weight (selectedProperties v schema (propertyIdents ident (mn_properties m))) < size m"
proof -
  have "weight (selectedProperties v schema (propertyIdents ident (mn_properties m)))
        \<le> weight (propertyIdents ident (mn_properties m))"
    unfolding selectedProperties_def by (rule weight_filter)
  also have "\<dots> = size_list size (mn_properties m)" by (rule weight_propertyIdents)
  also have "\<dots> < size m" by (rule size_properties)
  finally show ?thesis .
qed

lemma linkTarget_cases:
  "linkTarget models ident l = Some t
   \<Longrightarrow> (l = Inline (snd t) \<and> fst t = (fst ident, snd ident @ [None]))
       \<or> (\<exists>j<length models. fst t = (j, []) \<and> snd t = models ! j)"
  by (cases l) (auto simp: linkTarget_def split: if_splits)

lemma linkStepFor_Descend:
  "linkStepFor models ident model sub = Descend i m s
   \<Longrightarrow> linkTarget models ident (mn_link model) = Some (i, m)"
  by (cases sub) (auto simp: linkStepFor_def split: option.splits if_splits)

lemma linkStep_Descend:
  "linkStep models ident model schema = Descend i m s
   \<Longrightarrow> linkTarget models ident (mn_link model) = Some (i, m)"
  by (auto simp: linkStep_def split: if_splits option.splits additional.splits
           dest: linkStepFor_Descend)

lemma linkStep_target:
  assumes "linkStep models ident model schema = Descend i m s"
  shows "(size m < size model \<and> i = (fst ident, snd ident @ [None]))
         \<or> (\<exists>j<length models. i = (j, []))"
  using linkTarget_cases [OF linkStep_Descend [OF assms]] size_inline [of model m]
  by auto

lemma links_visited_partial:
  "ensureModelLinksAt_ensureLinksProperties_ensureLinksBranches_dom
      (Inl (spec, models, ident, model, schema, st))
     \<Longrightarrow> ensureModelLinksAt spec models ident model schema st = Inr st'
     \<Longrightarrow> set (ls_visited st) \<subseteq> set (ls_visited st') \<and> ident \<in> set (ls_visited st')"
  "ensureModelLinksAt_ensureLinksProperties_ensureLinksBranches_dom
      (Inr (Inl (spec, models, schema, ps, st)))
     \<Longrightarrow> ensureLinksProperties spec models schema ps st = Inr st'
     \<Longrightarrow> set (ls_visited st) \<subseteq> set (ls_visited st')"
  "ensureModelLinksAt_ensureLinksProperties_ensureLinksBranches_dom
      (Inr (Inr (spec, models, schema, export, i, ps, st)))
     \<Longrightarrow> ensureLinksBranches spec models schema export i ps st = Inr st'
     \<Longrightarrow> set (ls_visited st) \<subseteq> set (ls_visited st')"
proof (induct arbitrary: st' and st' and st'
       rule: ensureModelLinksAt_ensureLinksProperties_ensureLinksBranches.pinduct)
  case (1 spec models ident model schema st)
  show ?case
  proof (cases "ident \<in> set (ls_visited st)")
    case True
    with "1.prems" "1.hyps"(1) show ?thesis
      by (simp add: ensureModelLinksAt.psimps)
  next
    case False
    let ?st1 = "st\<lparr>ls_visited := ident # ls_visited st, ls_entered := ls_entered st @ [ident]\<rparr>"
    let ?first = "(case linkStep models ident model schema of
                 SetLink j \<Rightarrow>
                   Inr (st\<lparr>ls_visited := ident # ls_visited st,
                           ls_links := (ls_links st)(ident \<mapsto> j),
                           ls_entered := ls_entered st @ [ident]\<rparr>)
               | Descend i m s \<Rightarrow> ensureModelLinksAt spec models i m s ?st1
               | Nothing \<Rightarrow> Inr ?st1)"
    from False "1.prems" "1.hyps"(1) obtain st2 st3 where
      f: "?first = Inr st2"
      and p: "ensureLinksProperties spec models schema
                (selectedProperties (ls_visited st2) schema
                   (propertyIdents ident (mn_properties model))) st2 = Inr st3"
      and b: "(if mn_export model \<in> set COMPOSED_SCHEMA_TYPES
               then ensureLinksBranches spec models schema (mn_export model) 0
                      (propertyIdents ident (mn_properties model)) st3
               else Inr st3) = Inr st'"
      by (auto simp: ensureModelLinksAt.psimps split: sum.splits)
    have v2: "set (ident # ls_visited st) \<subseteq> set (ls_visited st2)"
    proof (cases "linkStep models ident model schema")
      case (SetLink j)
      with f show ?thesis by auto
    next
      case (Descend i m s)
      with f have "ensureModelLinksAt spec models i m s ?st1 = Inr st2" by simp
      from "1.hyps"(2) [OF False Descend this] show ?thesis by simp
    next
      case Nothing
      with f show ?thesis by auto
    qed
    have v3: "set (ls_visited st2) \<subseteq> set (ls_visited st3)"
      using "1.hyps"(3) [OF False f p] .
    have v4: "set (ls_visited st3) \<subseteq> set (ls_visited st')"
    proof (cases "mn_export model \<in> set COMPOSED_SCHEMA_TYPES")
      case True
      with b have "ensureLinksBranches spec models schema (mn_export model) 0
                      (propertyIdents ident (mn_properties model)) st3 = Inr st'" by simp
      from "1.hyps"(4) [OF False f p True this] show ?thesis .
    next
      case False
      with b show ?thesis by simp
    qed
    from v2 v3 v4 show ?thesis by auto
  qed
next
  case (2 spec models schema st)
  then show ?case by (simp add: ensureLinksProperties.psimps)
next
  case (3 spec models schema p ps st)
  show ?case
  proof (cases "schemaProperty schema (trimQuotes (mn_name (snd p)))")
    case None
    with "3.prems" "3.hyps"(1) have "ensureLinksProperties spec models schema ps st = Inr st'"
      by (simp add: ensureLinksProperties.psimps)
    from "3.hyps"(2) [OF None this] show ?thesis .
  next
    case (Some sub)
    with "3.prems" "3.hyps"(1) obtain subSchema st1 where
      r: "resolveIfRef spec sub = Inr subSchema"
      and a: "ensureModelLinksAt spec models (fst p) (snd p) subSchema st = Inr st1"
      and b: "ensureLinksProperties spec models schema ps st1 = Inr st'"
      by (auto simp: ensureLinksProperties.psimps split: sum.splits)
    from "3.hyps"(3) [OF Some r a] "3.hyps"(4) [OF Some r a b] show ?thesis by blast
  qed
next
  case (4 spec models schema export i st)
  then show ?case by (simp add: ensureLinksBranches.psimps)
next
  case (5 spec models schema export i p ps st)
  show ?case
  proof (cases "schemaBranch schema export i")
    case None
    with "5.prems" "5.hyps"(1)
    have "ensureLinksBranches spec models schema export (Suc i) ps st = Inr st'"
      by (simp add: ensureLinksBranches.psimps)
    from "5.hyps"(2) [OF None this] show ?thesis .
  next
    case (Some sub)
    with "5.prems" "5.hyps"(1) obtain subSchema st1 where
      r: "resolveIfRef spec sub = Inr subSchema"
      and a: "ensureModelLinksAt spec models (fst p) (snd p) subSchema st = Inr st1"
      and b: "ensureLinksBranches spec models schema export (Suc i) ps st1 = Inr st'"
      by (auto simp: ensureLinksBranches.psimps split: sum.splits)
    from "5.hyps"(3) [OF Some r a] "5.hyps"(4) [OF Some r a b] show ?thesis by blast
  qed
qed


definition pending :: "mnode list \<Rightarrow> ident list \<Rightarrow> nat set" where
  "pending models visited = {..<length models} - rootsIn visited"

fun linkMeasure ::
  "(spec_get \<times> mnode list \<times> ident \<times> mnode \<times> schema \<times> link_state)
   + (spec_get \<times> mnode list \<times> schema \<times> (ident \<times> mnode) list \<times> link_state)
   + (spec_get \<times> mnode list \<times> schema \<times> string \<times> nat \<times> (ident \<times> mnode) list \<times> link_state)
   \<Rightarrow> nat \<times> nat" where
  "linkMeasure (Inl (spec, models, ident, model, schema, st)) =
     (card (pending models (ls_visited st) - selfRoot ident),
      if ident \<in> set (ls_visited st) then 0 else Suc (size model))"
| "linkMeasure (Inr (Inl (spec, models, schema, ps, st))) =
     (card (pending models (ls_visited st)), Suc (weight ps))"
| "linkMeasure (Inr (Inr (spec, models, schema, export, i, ps, st))) =
     (card (pending models (ls_visited st)), Suc (weight ps))"

lemma lex_le_lt:
  "a \<le> a' \<Longrightarrow> b < b' \<Longrightarrow> ((a, b), (a', b')) \<in> less_than <*lex*> less_than"
  for a a' b b' :: nat
  by auto

lemma finite_pending: "finite (pending models v)"
  by (simp add: pending_def)

lemma pending_Cons: "pending models (ident # v) = pending models v - selfRoot ident"
  by (auto simp: pending_def rootsIn_Cons)

lemma pending_anti:
  "set v \<subseteq> set v' \<Longrightarrow> card (pending models v') \<le> card (pending models v)"
  by (rule card_mono [OF finite_pending]) (use rootsIn_mono [of v v'] in \<open>auto simp: pending_def\<close>)

lemma pending_self: "card (pending models v - selfRoot ident) \<le> card (pending models v)"
  by (rule card_mono [OF finite_pending]) auto

lemma descend_decreases:
  assumes fresh: "ident \<notin> set (ls_visited st)"
    and step: "linkStep models ident model schema = Descend i m s"
  shows "(linkMeasure (Inl (spec, models, i, m, s,
            st\<lparr>ls_visited := ident # ls_visited st, ls_entered := ls_entered st @ [ident]\<rparr>)),
          linkMeasure (Inl (spec, models, ident, model, schema, st)))
         \<in> less_than <*lex*> less_than"
proof -
  let ?V = "ls_visited st"
  let ?caller = "pending models ?V - selfRoot ident"
  from linkStep_target [OF step] show ?thesis
  proof
    assume a: "size m < size model \<and> i = (fst ident, snd ident @ [None])"
    then have "selfRoot i = {}" by (simp add: selfRoot_def)
    with a fresh show ?thesis by (simp add: pending_Cons)
  next
    assume "\<exists>j<length models. i = (j, [])"
    then obtain j where j: "j < length models" and i: "i = (j, [])" by blast
    have self: "selfRoot i = {j}" by (simp add: i selfRoot_def)
    show ?thesis
    proof (cases "j \<in> ?caller")
      case True
      have "card (?caller - {j}) < card ?caller"
        by (rule card_Diff1_less [OF _ True]) (simp add: finite_pending)
      with fresh show ?thesis by (simp add: pending_Cons self)
    next
      case False
      with j have "j \<in> rootsIn (ident # ?V)"
        by (auto simp: pending_def rootsIn_Cons)
      then have "i \<in> set (ident # ?V)" by (simp add: rootsIn_def i)
      moreover from False have "?caller - {j} = ?caller" by auto
      ultimately show ?thesis using fresh by (simp add: pending_Cons self)
    qed
  qed
qed

lemma enter_decreases:
  "(linkMeasure (Inl (spec, models, fst p, snd p, b, st)),
    (card (pending models (ls_visited st)), Suc (weight (p # ps))))
   \<in> less_than <*lex*> less_than"
  using pending_self [of models "ls_visited st" "fst p"]
  by (auto simp: weight_def)

lemma rest_decreases:
  "set (ls_visited st) \<subseteq> set (ls_visited st')
   \<Longrightarrow> ((card (pending models (ls_visited st')), Suc (weight ps)),
        (card (pending models (ls_visited st)), Suc (weight (p # ps))))
       \<in> less_than <*lex*> less_than"
  by (rule lex_le_lt [OF pending_anti]) (simp_all add: weight_def)

lemma first_step_visited:
  assumes f: "(case linkStep models ident model schema of
                 SetLink j \<Rightarrow>
                   Inr (st\<lparr>ls_visited := ident # ls_visited st,
                           ls_links := (ls_links st)(ident \<mapsto> j),
                           ls_entered := ls_entered st @ [ident]\<rparr>)
               | Descend i m s \<Rightarrow>
                   ensureModelLinksAt spec models i m s
                     (st\<lparr>ls_visited := ident # ls_visited st,
                          ls_entered := ls_entered st @ [ident]\<rparr>)
               | Nothing \<Rightarrow>
                   Inr (st\<lparr>ls_visited := ident # ls_visited st,
                           ls_entered := ls_entered st @ [ident]\<rparr>)) = Inr b"
    and d: "\<And>i m s. linkStep models ident model schema = Descend i m s \<Longrightarrow>
              ensureModelLinksAt_ensureLinksProperties_ensureLinksBranches_dom
                (Inl (spec, models, i, m, s,
                   st\<lparr>ls_visited := ident # ls_visited st,
                        ls_entered := ls_entered st @ [ident]\<rparr>))"
  shows "set (ident # ls_visited st) \<subseteq> set (ls_visited b)"
proof (cases "linkStep models ident model schema")
  case (SetLink j)
  with f show ?thesis by auto
next
  case (Descend i m s)
  with f have "ensureModelLinksAt spec models i m s
                 (st\<lparr>ls_visited := ident # ls_visited st,
                      ls_entered := ls_entered st @ [ident]\<rparr>) = Inr b" by simp
  from links_visited_partial(1) [OF d [OF Descend] this] show ?thesis by simp
next
  case Nothing
  with f show ?thesis by auto
qed

lemma body_decreases:
  assumes fresh: "ident \<notin> set (ls_visited st)"
    and sub: "set (ident # ls_visited st) \<subseteq> set (ls_visited st')"
    and w: "weight ps < size model"
  shows "((card (pending models (ls_visited st')), Suc (weight ps)),
          linkMeasure (Inl (spec, models, ident, model, schema, st)))
         \<in> less_than <*lex*> less_than"
proof -
  have "card (pending models (ls_visited st')) \<le> card (pending models (ident # ls_visited st))"
    by (rule pending_anti [OF sub])
  then have "card (pending models (ls_visited st'))
             \<le> card (pending models (ls_visited st) - selfRoot ident)"
    by (simp add: pending_Cons)
  from lex_le_lt [OF this, of "Suc (weight ps)" "Suc (size model)"] fresh w
  show ?thesis by simp
qed

lemma ensureModelLinks_total:
  "All ensureModelLinksAt_ensureLinksProperties_ensureLinksBranches_dom"
proof (rule "ensureModelLinksAt_ensureLinksProperties_ensureLinksBranches.termination"
         [of "inv_image (less_than <*lex*> less_than) linkMeasure"], goal_cases)
  case 1
  show ?case by (intro wf_inv_image wf_lex_prod wf_less_than)
next
  case (2 models ident model schema st i m s)
  from descend_decreases [OF 2(1) 2(2)] show ?case by (simp only: in_inv_image)
next
  case (3 spec models ident model schema st b)
  have sub: "set (ident # ls_visited st) \<subseteq> set (ls_visited b)"
    by (rule first_step_visited [OF 3(2) 3(3)])
  from body_decreases [OF 3(1) sub weight_selected]
  show ?case by (simp only: in_inv_image linkMeasure.simps)
next
  case (4 spec models ident model schema st b ba)
  have sub: "set (ident # ls_visited st) \<subseteq> set (ls_visited b)"
    by (rule first_step_visited [OF 4(2) 4(6)])
  have "set (ls_visited b) \<subseteq> set (ls_visited ba)"
    by (rule links_visited_partial(2) [OF 4(5) 4(3)])
  with sub have sub': "set (ident # ls_visited st) \<subseteq> set (ls_visited ba)" by blast
  have w: "weight (propertyIdents ident (mn_properties model)) < size model"
    by (simp add: weight_propertyIdents size_properties)
  from body_decreases [OF 4(1) sub' w]
  show ?case by (simp only: in_inv_image linkMeasure.simps)
next
  case (5 spec models schema p ps st)
  from rest_decreases [OF subset_refl] show ?case by (simp only: in_inv_image linkMeasure.simps)
next
  case (6 spec models schema p ps st sub b)
  from enter_decreases show ?case by (simp only: in_inv_image linkMeasure.simps)
next
  case (7 spec models schema p ps st sub b ba)
  have "set (ls_visited st) \<subseteq> set (ls_visited ba)"
    using links_visited_partial(1) [OF 7(4) 7(3)] by simp
  from rest_decreases [OF this] show ?case by (simp only: in_inv_image linkMeasure.simps)
next
  case (8 spec models schema export i p ps st)
  from rest_decreases [OF subset_refl] show ?case by (simp only: in_inv_image linkMeasure.simps)
next
  case (9 spec models schema export i p ps st sub b)
  from enter_decreases show ?case by (simp only: in_inv_image linkMeasure.simps)
next
  case (10 spec models schema export i p ps st sub b ba)
  have "set (ls_visited st) \<subseteq> set (ls_visited ba)"
    using links_visited_partial(1) [OF 10(4) 10(3)] by simp
  from rest_decreases [OF this] show ?case by (simp only: in_inv_image linkMeasure.simps)
qed

termination ensureModelLinksAt
  by (rule ensureModelLinks_total)

declare ensureModelLinksAt.simps [simp del]

text \<open>
  \<open>ensureModelLinks\<close>: one set \<open>visited\<close> for the whole pass, first the models of
  \<open>data.models\<close> that have a schema of their name, then the parameters of the operations.
  A parameter comes with the schema of the parameter of its name in the document, if there
  is one, and is identified by a position behind the models. The assignment
  \<open>model.type = model.name\<close> is left out: the walk reads no \<open>type\<close>.
\<close>

definition initialLinks :: link_state where
  "initialLinks = \<lparr>ls_visited = [], ls_links = Map.empty, ls_entered = []\<rparr>"

fun ensureLinksModels ::
  "spec_get \<Rightarrow> mnode list \<Rightarrow> nat \<Rightarrow> mnode list \<Rightarrow> link_state
     \<Rightarrow> string + link_state" where
  "ensureLinksModels spec models k [] st = Inr st"
| "ensureLinksModels spec models k (m # rest) st =
     (case spec [''components'', ''schemas'', mn_name m] of
        None \<Rightarrow> ensureLinksModels spec models (Suc k) rest st
      | Some s \<Rightarrow>
          (case resolveIfRef spec s of
             Inl e \<Rightarrow> Inl e
           | Inr schema \<Rightarrow>
               (case ensureModelLinksAt spec models (k, []) m schema st of
                  Inl e \<Rightarrow> Inl e
                | Inr st' \<Rightarrow> ensureLinksModels spec models (Suc k) rest st')))"

fun ensureLinksParameters ::
  "spec_get \<Rightarrow> mnode list \<Rightarrow> nat \<Rightarrow> (mnode \<times> schema option) list \<Rightarrow> link_state
     \<Rightarrow> string + link_state" where
  "ensureLinksParameters spec models k [] st = Inr st"
| "ensureLinksParameters spec models k ((m, None) # rest) st =
     ensureLinksParameters spec models (Suc k) rest st"
| "ensureLinksParameters spec models k ((m, Some s) # rest) st =
     (case resolveIfRef spec s of
        Inl e \<Rightarrow> Inl e
      | Inr schema \<Rightarrow>
          (case ensureModelLinksAt spec models (k, []) m schema st of
             Inl e \<Rightarrow> Inl e
           | Inr st' \<Rightarrow> ensureLinksParameters spec models (Suc k) rest st'))"

definition ensureModelLinks ::
  "spec_get \<Rightarrow> mnode list \<Rightarrow> (mnode \<times> schema option) list
     \<Rightarrow> string + link_state" where
  "ensureModelLinks spec models parameters =
     (case ensureLinksModels spec models 0 models initialLinks of
        Inl e \<Rightarrow> Inl e
      | Inr st \<Rightarrow> ensureLinksParameters spec models (length models) parameters st)"

text \<open>What the pass keeps true: the models entered are the models visited, each once.\<close>

definition linkInv :: "link_state \<Rightarrow> bool" where
  "linkInv st = (ls_entered st = rev (ls_visited st) \<and> distinct (ls_visited st))"

lemma linkInv_enter:
  "linkInv st \<Longrightarrow> ident \<notin> set (ls_visited st)
   \<Longrightarrow> linkInv (st\<lparr>ls_visited := ident # ls_visited st, ls_entered := ls_entered st @ [ident]\<rparr>)"
  by (simp add: linkInv_def)

lemma linkInv_set:
  "linkInv st \<Longrightarrow> ident \<notin> set (ls_visited st)
   \<Longrightarrow> linkInv (st\<lparr>ls_visited := ident # ls_visited st, ls_links := l,
                    ls_entered := ls_entered st @ [ident]\<rparr>)"
  by (simp add: linkInv_def)

lemma links_inv:
  "linkInv st \<Longrightarrow> ensureModelLinksAt spec models ident model schema st = Inr st'
     \<Longrightarrow> linkInv st'"
  "linkInv st \<Longrightarrow> ensureLinksProperties spec models schema ps st = Inr st'
     \<Longrightarrow> linkInv st'"
  "linkInv st \<Longrightarrow> ensureLinksBranches spec models schema export i ps st = Inr st'
     \<Longrightarrow> linkInv st'"
proof (induct spec models ident model schema st and spec models schema ps st
          and spec models schema export i ps st
       arbitrary: st' and st' and st'
       rule: ensureModelLinksAt_ensureLinksProperties_ensureLinksBranches.induct)
  case (1 spec models ident model schema st)
  note inv = "1.prems"(1) and res = "1.prems"(2)
  show ?case
  proof (cases "ident \<in> set (ls_visited st)")
    case True
    with inv res show ?thesis by (simp add: ensureModelLinksAt.simps)
  next
    case False
    let ?st1 = "st\<lparr>ls_visited := ident # ls_visited st, ls_entered := ls_entered st @ [ident]\<rparr>"
    let ?first = "(case linkStep models ident model schema of
                 SetLink j \<Rightarrow>
                   Inr (st\<lparr>ls_visited := ident # ls_visited st,
                           ls_links := (ls_links st)(ident \<mapsto> j),
                           ls_entered := ls_entered st @ [ident]\<rparr>)
               | Descend i m s \<Rightarrow> ensureModelLinksAt spec models i m s ?st1
               | Nothing \<Rightarrow> Inr ?st1)"
    from False res obtain st2 st3 where
      f: "?first = Inr st2"
      and p: "ensureLinksProperties spec models schema
                (selectedProperties (ls_visited st2) schema
                   (propertyIdents ident (mn_properties model))) st2 = Inr st3"
      and b: "(if mn_export model \<in> set COMPOSED_SCHEMA_TYPES
               then ensureLinksBranches spec models schema (mn_export model) 0
                      (propertyIdents ident (mn_properties model)) st3
               else Inr st3) = Inr st'"
      by (auto simp: ensureModelLinksAt.simps split: sum.splits)
    have i1: "linkInv ?st1" by (rule linkInv_enter [OF inv False])
    have i2: "linkInv st2"
    proof (cases "linkStep models ident model schema")
      case (SetLink j)
      with f linkInv_set [OF inv False] show ?thesis by auto
    next
      case (Descend i m s)
      with f have "ensureModelLinksAt spec models i m s ?st1 = Inr st2" by simp
      from "1.hyps"(1) [OF False Descend i1 this] show ?thesis .
    next
      case Nothing
      with f i1 show ?thesis by auto
    qed
    have i3: "linkInv st3"
      using "1.hyps"(2) [OF False f i2 p] .
    show ?thesis
    proof (cases "mn_export model \<in> set COMPOSED_SCHEMA_TYPES")
      case True
      with b have "ensureLinksBranches spec models schema (mn_export model) 0
                      (propertyIdents ident (mn_properties model)) st3 = Inr st'" by simp
      from "1.hyps"(3) [OF False f p True i3 this] show ?thesis .
    next
      case False
      with b i3 show ?thesis by simp
    qed
  qed
next
  case (2 spec models schema st)
  then show ?case by simp
next
  case (3 spec models schema p ps st)
  note inv = "3.prems"(1) and res = "3.prems"(2)
  show ?case
  proof (cases "schemaProperty schema (trimQuotes (mn_name (snd p)))")
    case None
    with res have "ensureLinksProperties spec models schema ps st = Inr st'" by simp
    from "3.hyps"(1) [OF None inv this] show ?thesis .
  next
    case (Some sub)
    with res obtain subSchema st1 where
      r: "resolveIfRef spec sub = Inr subSchema"
      and a: "ensureModelLinksAt spec models (fst p) (snd p) subSchema st = Inr st1"
      and b: "ensureLinksProperties spec models schema ps st1 = Inr st'"
      by (auto split: sum.splits)
    from "3.hyps"(3) [OF Some r a "3.hyps"(2) [OF Some r inv a] b] show ?thesis .
  qed
next
  case (4 spec models schema export i st)
  then show ?case by simp
next
  case (5 spec models schema export i p ps st)
  note inv = "5.prems"(1) and res = "5.prems"(2)
  show ?case
  proof (cases "schemaBranch schema export i")
    case None
    with res have "ensureLinksBranches spec models schema export (Suc i) ps st = Inr st'"
      by simp
    from "5.hyps"(1) [OF None inv this] show ?thesis .
  next
    case (Some sub)
    with res obtain subSchema st1 where
      r: "resolveIfRef spec sub = Inr subSchema"
      and a: "ensureModelLinksAt spec models (fst p) (snd p) subSchema st = Inr st1"
      and b: "ensureLinksBranches spec models schema export (Suc i) ps st1 = Inr st'"
      by (auto split: sum.splits)
    from "5.hyps"(3) [OF Some r a "5.hyps"(2) [OF Some r inv a] b] show ?thesis .
  qed
qed

lemma ensureLinksModels_inv:
  "linkInv st \<Longrightarrow> ensureLinksModels spec models k ms st = Inr st' \<Longrightarrow> linkInv st'"
proof (induction ms arbitrary: k st)
  case Nil
  then show ?case by simp
next
  case (Cons m rest)
  show ?case
  proof (cases "spec [''components'', ''schemas'', mn_name m]")
    case None
    with Cons.prems(2) have "ensureLinksModels spec models (Suc k) rest st = Inr st'" by simp
    from Cons.IH [OF Cons.prems(1) this] show ?thesis .
  next
    case (Some s)
    with Cons.prems(2) obtain schema st1 where
      r: "resolveIfRef spec s = Inr schema"
      and a: "ensureModelLinksAt spec models (k, []) m schema st = Inr st1"
      and b: "ensureLinksModels spec models (Suc k) rest st1 = Inr st'"
      by (auto split: sum.splits)
    from Cons.IH [OF links_inv(1) [OF Cons.prems(1) a] b] show ?thesis .
  qed
qed

lemma ensureLinksParameters_inv:
  "linkInv st \<Longrightarrow> ensureLinksParameters spec models k ps st = Inr st' \<Longrightarrow> linkInv st'"
proof (induction spec models k ps st rule: ensureLinksParameters.induct)
  case (1 spec models k st)
  then show ?case by simp
next
  case (2 spec models k m rest st)
  then show ?case by simp
next
  case (3 spec models k m s rest st)
  from "3.prems"(2) obtain schema st1 where
    r: "resolveIfRef spec s = Inr schema"
    and a: "ensureModelLinksAt spec models (k, []) m schema st = Inr st1"
    and b: "ensureLinksParameters spec models (Suc k) rest st1 = Inr st'"
    by (auto split: sum.splits)
  from "3.IH" [OF r a links_inv(1) [OF "3.prems"(1) a] b] show ?case .
qed

lemma ensureModelLinks_distinct:
  assumes "ensureModelLinks spec models parameters = Inr st"
  shows "distinct (ls_entered st)"
proof -
  from assms obtain st1 where
    a: "ensureLinksModels spec models 0 models initialLinks = Inr st1"
    and b: "ensureLinksParameters spec models (length models) parameters st1 = Inr st"
    by (auto simp: ensureModelLinks_def split: sum.splits)
  have "linkInv initialLinks" by (simp add: linkInv_def initialLinks_def)
  from ensureLinksParameters_inv [OF ensureLinksModels_inv [OF this a] b]
  show ?thesis by (simp add: linkInv_def)
qed

section \<open>Propagating the metadata\<close>

text \<open>
  The state of \<open>mutateWithOpenapiSchemaProperties\<close>: the set \<open>visited\<close> of the call that
  started the walk, and the models that were given their metadata, in order, one entry
  for each time.
\<close>

record meta_state =
  ms_visited :: "ident list"
  ms_enriched :: "ident list"

text \<open>
  The array and dictionary parts of the body: the model behind the link and the schema of
  the items or values to go on with, when there is a link that is not yet visited.
\<close>

definition metaStep ::
  "mnode list \<Rightarrow> ident \<Rightarrow> mnode \<Rightarrow> schema \<Rightarrow> ident list \<Rightarrow> (ident \<times> mnode \<times> schema) option" where
  "metaStep models ident model schema visited =
     (case linkTarget models ident (mn_link model) of
        None \<Rightarrow> None
      | Some t \<Rightarrow>
          if fst t \<in> set visited then None
          else if mn_export model = ''array''
          then (case schemaItems schema of
                  None \<Rightarrow> None
                | Some i \<Rightarrow> Some (fst t, snd t, i))
          else if mn_export model = ''dictionary''
          then (case schemaAdditional schema of
                  Some (ASchema a) \<Rightarrow> Some (fst t, snd t, a)
                | _ \<Rightarrow> None)
          else None)"

text \<open>
  \<open>toTypeScriptType\<close>, \<open>toJavaType\<close> and \<open>toPythonType\<close>, as far as their calls go. For
  an array or a dictionary that has a link whose \<open>export\<close> is not \<open>enum\<close>, each of the
  three calls itself on the link and wraps what it gets; for every other model it answers
  without a call. The texts differ from one language to the other and are left out:
  \<open>typeShape\<close> gives the nesting that all three follow. There is no set \<open>visited\<close> here.
  The fuel bounds the depth of the calls, and \<open>None\<close> says that it did not suffice.
\<close>

datatype type_shape = Plain | ArrayOf type_shape | DictionaryOf type_shape

definition linkModel :: "mnode list \<Rightarrow> mlink \<Rightarrow> mnode option" where
  "linkModel models l =
     (case l of
        NoLink \<Rightarrow> None
      | Inline c \<Rightarrow> Some c
      | Top j \<Rightarrow> if j < length models then Some (models ! j) else None)"

fun typeShape :: "nat \<Rightarrow> mnode list \<Rightarrow> mnode \<Rightarrow> type_shape option" where
  "typeShape 0 models property = None"
| "typeShape (Suc n) models property =
     (if mn_export property = ''array''
      then (case linkModel models (mn_link property) of
              None \<Rightarrow> Some (ArrayOf Plain)
            | Some l \<Rightarrow>
                if mn_export l \<noteq> ''enum''
                then map_option ArrayOf (typeShape n models l) else Some (ArrayOf Plain))
      else if mn_export property = ''dictionary''
      then (case linkModel models (mn_link property) of
              None \<Rightarrow> Some (DictionaryOf Plain)
            | Some l \<Rightarrow>
                if mn_export l \<noteq> ''enum''
                then map_option DictionaryOf (typeShape n models l) else Some (DictionaryOf Plain))
      else Some Plain)"

text \<open>
  \<open>mutateModelWithAdditionalTypes\<close> returns when the three projections do, and they
  return together, since they make their calls at the same places.
\<close>

definition mutateModelWithAdditionalTypes :: "nat \<Rightarrow> mnode list \<Rightarrow> mnode \<Rightarrow> type_shape option" where
  "mutateModelWithAdditionalTypes fuel models model = typeShape fuel models model"

text \<open>
  How a walk ends when it does not come to its end: with the error that was thrown, or
  because the fuel of a projection did not suffice.
\<close>

datatype halt = Throws string | OutOfFuel

text \<open>
  \<open>mutateWithOpenapiSchemaProperties\<close>. The body has no test at its entry: the model is
  given its metadata, \<open>mutateModelWithAdditionalTypes\<close> among it, and added to \<open>visited\<close>,
  whatever \<open>visited\<close> holds. The name of a model is trimmed when it is given its metadata;
  the walk reads names through the same trim.
\<close>

function mutateWithOpenapiSchemaProperties ::
    "nat \<Rightarrow> spec_get \<Rightarrow> mnode list \<Rightarrow> ident \<Rightarrow> mnode \<Rightarrow> schema \<Rightarrow> meta_state
       \<Rightarrow> halt + meta_state"
  and mutateProperties ::
    "nat \<Rightarrow> spec_get \<Rightarrow> mnode list \<Rightarrow> schema \<Rightarrow> (ident \<times> mnode) list \<Rightarrow> meta_state
       \<Rightarrow> halt + meta_state"
  and mutateBranches ::
    "nat \<Rightarrow> spec_get \<Rightarrow> mnode list \<Rightarrow> schema \<Rightarrow> string \<Rightarrow> nat \<Rightarrow> (ident \<times> mnode) list
       \<Rightarrow> meta_state \<Rightarrow> halt + meta_state" where
  "mutateWithOpenapiSchemaProperties fuel spec models ident model schema st =
     (case mutateModelWithAdditionalTypes fuel models model of
        None \<Rightarrow> Inl OutOfFuel
      | Some ty \<Rightarrow>
            (case (case metaStep models ident model schema (ident # ms_visited st) of
                     None \<Rightarrow>
                       Inr (st\<lparr>ms_visited := ident # ms_visited st,
                               ms_enriched := ms_enriched st @ [ident]\<rparr>)
                   | Some t \<Rightarrow>
                       (case resolveIfRef spec (snd (snd t)) of
                          Inl e \<Rightarrow> Inl (Throws e)
                        | Inr subSchema \<Rightarrow>
                            mutateWithOpenapiSchemaProperties fuel spec models (fst t) (fst (snd t)) subSchema
                              (st\<lparr>ms_visited := ident # ms_visited st,
                                  ms_enriched := ms_enriched st @ [ident]\<rparr>))) of
               Inl e \<Rightarrow> Inl e
             | Inr st2 \<Rightarrow>
                 (case mutateProperties fuel spec models schema
                         (selectedProperties (ms_visited st2) schema
                            (propertyIdents ident (mn_properties model))) st2 of
                    Inl e \<Rightarrow> Inl e
                  | Inr st3 \<Rightarrow>
                      if mn_export model \<in> set COMPOSED_SCHEMA_TYPES
                      then mutateBranches fuel spec models schema (mn_export model) 0
                             (propertyIdents ident (mn_properties model)) st3
                      else Inr st3)))"
| "mutateProperties fuel spec models schema [] st = Inr st"
| "mutateProperties fuel spec models schema (p # ps) st =
     (case schemaProperty schema (trimQuotes (mn_name (snd p))) of
        None \<Rightarrow> mutateProperties fuel spec models schema ps st
      | Some sub \<Rightarrow>
          (case resolveIfRef spec sub of
             Inl e \<Rightarrow> Inl (Throws e)
           | Inr subSchema \<Rightarrow>
               (case mutateWithOpenapiSchemaProperties fuel spec models (fst p) (snd p) subSchema st of
                  Inl e \<Rightarrow> Inl e
                | Inr st' \<Rightarrow> mutateProperties fuel spec models schema ps st')))"
| "mutateBranches fuel spec models schema export i [] st = Inr st"
| "mutateBranches fuel spec models schema export i (p # ps) st =
     (case schemaBranch schema export i of
        None \<Rightarrow> mutateBranches fuel spec models schema export (Suc i) ps st
      | Some sub \<Rightarrow>
          (case resolveIfRef spec sub of
             Inl e \<Rightarrow> Inl (Throws e)
           | Inr subSchema \<Rightarrow>
               (case mutateWithOpenapiSchemaProperties fuel spec models (fst p) (snd p) subSchema st of
                  Inl e \<Rightarrow> Inl e
                | Inr st' \<Rightarrow> mutateBranches fuel spec models schema export (Suc i) ps st')))"
  by pat_completeness auto

fun metaMeasure ::
  "(nat \<times> spec_get \<times> mnode list \<times> ident \<times> mnode \<times> schema \<times> meta_state)
   + (nat \<times> spec_get \<times> mnode list \<times> schema \<times> (ident \<times> mnode) list \<times> meta_state)
   + (nat \<times> spec_get \<times> mnode list \<times> schema \<times> string \<times> nat \<times> (ident \<times> mnode) list \<times> meta_state)
   \<Rightarrow> nat \<times> nat" where
  "metaMeasure (Inl (fuel, spec, models, ident, model, schema, st)) =
     (card (pending models (ms_visited st) - selfRoot ident), Suc (size model))"
| "metaMeasure (Inr (Inl (fuel, spec, models, schema, ps, st))) =
     (card (pending models (ms_visited st)), Suc (weight ps))"
| "metaMeasure (Inr (Inr (fuel, spec, models, schema, export, i, ps, st))) =
     (card (pending models (ms_visited st)), Suc (weight ps))"

lemma metaStep_target:
  assumes "metaStep models ident model schema visited = Some t"
  shows "fst t \<notin> set visited
         \<and> ((size (fst (snd t)) < size model \<and> fst t = (fst ident, snd ident @ [None]))
            \<or> (\<exists>j<length models. fst t = (j, [])))"
proof -
  from assms obtain u where
    u: "linkTarget models ident (mn_link model) = Some u"
    and f: "fst u \<notin> set visited" and t1: "fst t = fst u" and t2: "fst (snd t) = snd u"
    by (auto simp: metaStep_def split: option.splits if_splits additional.splits)
  from linkTarget_cases [OF u] size_inline [of model "snd u"] f t1 t2
  show ?thesis by auto
qed

lemma pending_enter:
  "((card (pending models v - selfRoot (fst p)), Suc (size (snd p))),
    (card (pending models v), Suc (weight (p # ps))))
   \<in> less_than <*lex*> less_than"
  by (rule lex_le_lt [OF pending_self]) (simp add: weight_def)

lemma pending_rest:
  "set v \<subseteq> set v'
   \<Longrightarrow> ((card (pending models v'), Suc (weight ps)),
        (card (pending models v), Suc (weight (p # ps))))
       \<in> less_than <*lex*> less_than"
  by (rule lex_le_lt [OF pending_anti]) (simp_all add: weight_def)

lemma pending_body:
  assumes sub: "set (ident # v) \<subseteq> set v'" and w: "weight ps < size model"
  shows "((card (pending models v'), Suc (weight ps)),
          (card (pending models v - selfRoot ident), Suc (size model)))
         \<in> less_than <*lex*> less_than"
proof -
  have "card (pending models v') \<le> card (pending models (ident # v))"
    by (rule pending_anti [OF sub])
  then have "card (pending models v') \<le> card (pending models v - selfRoot ident)"
    by (simp add: pending_Cons)
  from lex_le_lt [OF this, of "Suc (weight ps)" "Suc (size model)"] w
  show ?thesis by simp
qed

lemma pending_descend:
  assumes step: "metaStep models ident model schema (ident # v) = Some t"
  shows "((card (pending models (ident # v) - selfRoot (fst t)), Suc (size (fst (snd t)))),
          (card (pending models v - selfRoot ident), Suc (size model)))
         \<in> less_than <*lex*> less_than"
proof -
  from metaStep_target [OF step] have fresh: "fst t \<notin> set (ident # v)"
    and c: "(size (fst (snd t)) < size model \<and> fst t = (fst ident, snd ident @ [None]))
            \<or> (\<exists>j<length models. fst t = (j, []))"
    by blast+
  from c show ?thesis
  proof
    assume a: "size (fst (snd t)) < size model \<and> fst t = (fst ident, snd ident @ [None])"
    then have "selfRoot (fst t) = {}" by (simp add: selfRoot_def)
    with a show ?thesis by (simp add: pending_Cons)
  next
    assume "\<exists>j<length models. fst t = (j, [])"
    then obtain j where j: "j < length models" and i: "fst t = (j, [])" by blast
    have self: "selfRoot (fst t) = {j}" by (simp add: i selfRoot_def)
    from fresh i have "j \<notin> rootsIn (ident # v)" by (simp add: rootsIn_def)
    with j have "j \<in> pending models (ident # v)" by (simp add: pending_def)
    then have "card (pending models (ident # v) - {j}) < card (pending models (ident # v))"
      by (rule card_Diff1_less [OF finite_pending])
    then show ?thesis by (simp add: pending_Cons self)
  qed
qed

lemma meta_visited_partial:
  "mutateWithOpenapiSchemaProperties_mutateProperties_mutateBranches_dom
      (Inl (fuel, spec, models, ident, model, schema, st))
     \<Longrightarrow> mutateWithOpenapiSchemaProperties fuel spec models ident model schema st = Inr st'
     \<Longrightarrow> set (ident # ms_visited st) \<subseteq> set (ms_visited st')"
  "mutateWithOpenapiSchemaProperties_mutateProperties_mutateBranches_dom
      (Inr (Inl (fuel, spec, models, schema, ps, st)))
     \<Longrightarrow> mutateProperties fuel spec models schema ps st = Inr st'
     \<Longrightarrow> set (ms_visited st) \<subseteq> set (ms_visited st')"
  "mutateWithOpenapiSchemaProperties_mutateProperties_mutateBranches_dom
      (Inr (Inr (fuel, spec, models, schema, export, i, ps, st)))
     \<Longrightarrow> mutateBranches fuel spec models schema export i ps st = Inr st'
     \<Longrightarrow> set (ms_visited st) \<subseteq> set (ms_visited st')"
proof (induct arbitrary: st' and st' and st'
       rule: mutateWithOpenapiSchemaProperties_mutateProperties_mutateBranches.pinduct)
  case (1 fuel spec models ident model schema st)
  let ?st1 = "st\<lparr>ms_visited := ident # ms_visited st, ms_enriched := ms_enriched st @ [ident]\<rparr>"
  let ?first = "(case metaStep models ident model schema (ident # ms_visited st) of
              None \<Rightarrow> Inr ?st1
            | Some t \<Rightarrow>
                (case resolveIfRef spec (snd (snd t)) of
                   Inl e \<Rightarrow> Inl (Throws e)
                 | Inr subSchema \<Rightarrow>
                     mutateWithOpenapiSchemaProperties fuel spec models (fst t) (fst (snd t)) subSchema
                       ?st1))"
  from "1.prems" "1.hyps"(1) obtain ty st2 st3 where
    ty: "mutateModelWithAdditionalTypes fuel models model = Some ty"
    and f: "?first = Inr st2"
    and p: "mutateProperties fuel spec models schema
              (selectedProperties (ms_visited st2) schema
                 (propertyIdents ident (mn_properties model))) st2 = Inr st3"
    and b: "(if mn_export model \<in> set COMPOSED_SCHEMA_TYPES
             then mutateBranches fuel spec models schema (mn_export model) 0
                    (propertyIdents ident (mn_properties model)) st3
             else Inr st3) = Inr st'"
    by (auto simp: mutateWithOpenapiSchemaProperties.psimps split: sum.splits option.splits)
  have v2: "set (ident # ms_visited st) \<subseteq> set (ms_visited st2)"
  proof (cases "metaStep models ident model schema (ident # ms_visited st)")
    case None
    with f show ?thesis by auto
  next
    case (Some t)
    with f obtain sub where r: "resolveIfRef spec (snd (snd t)) = Inr sub"
      and a: "mutateWithOpenapiSchemaProperties fuel spec models (fst t) (fst (snd t)) sub ?st1
              = Inr st2"
      by (auto split: sum.splits)
    from "1.hyps"(2) [OF ty Some r a] show ?thesis by simp
  qed
  have v3: "set (ms_visited st2) \<subseteq> set (ms_visited st3)"
    using "1.hyps"(3) [OF ty f p] .
  have v4: "set (ms_visited st3) \<subseteq> set (ms_visited st')"
  proof (cases "mn_export model \<in> set COMPOSED_SCHEMA_TYPES")
    case True
    with b have "mutateBranches fuel spec models schema (mn_export model) 0
                    (propertyIdents ident (mn_properties model)) st3 = Inr st'" by simp
    from "1.hyps"(4) [OF ty f p True this] show ?thesis .
  next
    case False
    with b show ?thesis by simp
  qed
  from v2 v3 v4 show ?case by blast
next
  case (2 fuel spec models schema st)
  then show ?case by (simp add: mutateProperties.psimps)
next
  case (3 fuel spec models schema p ps st)
  show ?case
  proof (cases "schemaProperty schema (trimQuotes (mn_name (snd p)))")
    case None
    with "3.prems" "3.hyps"(1) have "mutateProperties fuel spec models schema ps st = Inr st'"
      by (simp add: mutateProperties.psimps)
    from "3.hyps"(2) [OF None this] show ?thesis .
  next
    case (Some sub)
    with "3.prems" "3.hyps"(1) obtain subSchema st1 where
      r: "resolveIfRef spec sub = Inr subSchema"
      and a: "mutateWithOpenapiSchemaProperties fuel spec models (fst p) (snd p) subSchema st
              = Inr st1"
      and b: "mutateProperties fuel spec models schema ps st1 = Inr st'"
      by (auto simp: mutateProperties.psimps split: sum.splits)
    from "3.hyps"(3) [OF Some r a] "3.hyps"(4) [OF Some r a b] show ?thesis by auto
  qed
next
  case (4 fuel spec models schema export i st)
  then show ?case by (simp add: mutateBranches.psimps)
next
  case (5 fuel spec models schema export i p ps st)
  show ?case
  proof (cases "schemaBranch schema export i")
    case None
    with "5.prems" "5.hyps"(1)
    have "mutateBranches fuel spec models schema export (Suc i) ps st = Inr st'"
      by (simp add: mutateBranches.psimps)
    from "5.hyps"(2) [OF None this] show ?thesis .
  next
    case (Some sub)
    with "5.prems" "5.hyps"(1) obtain subSchema st1 where
      r: "resolveIfRef spec sub = Inr subSchema"
      and a: "mutateWithOpenapiSchemaProperties fuel spec models (fst p) (snd p) subSchema st
              = Inr st1"
      and b: "mutateBranches fuel spec models schema export (Suc i) ps st1 = Inr st'"
      by (auto simp: mutateBranches.psimps split: sum.splits)
    from "5.hyps"(3) [OF Some r a] "5.hyps"(4) [OF Some r a b] show ?thesis by auto
  qed
qed

lemma meta_first_visited:
  assumes f: "(case metaStep models ident model schema (ident # ms_visited st) of
              None \<Rightarrow>
                Inr (st\<lparr>ms_visited := ident # ms_visited st,
                        ms_enriched := ms_enriched st @ [ident]\<rparr>)
            | Some t \<Rightarrow>
                (case resolveIfRef spec (snd (snd t)) of
                   Inl e \<Rightarrow> Inl (Throws e)
                 | Inr subSchema \<Rightarrow>
                     mutateWithOpenapiSchemaProperties fuel spec models (fst t) (fst (snd t)) subSchema
                       (st\<lparr>ms_visited := ident # ms_visited st,
                           ms_enriched := ms_enriched st @ [ident]\<rparr>))) = Inr b"
    and d: "\<And>t sub. metaStep models ident model schema (ident # ms_visited st) = Some t \<Longrightarrow>
              resolveIfRef spec (snd (snd t)) = Inr sub \<Longrightarrow>
              mutateWithOpenapiSchemaProperties_mutateProperties_mutateBranches_dom
                (Inl (fuel, spec, models, fst t, fst (snd t), sub,
                   st\<lparr>ms_visited := ident # ms_visited st,
                       ms_enriched := ms_enriched st @ [ident]\<rparr>))"
  shows "set (ident # ms_visited st) \<subseteq> set (ms_visited b)"
proof (cases "metaStep models ident model schema (ident # ms_visited st)")
  case None
  with f show ?thesis by auto
next
  case (Some t)
  with f obtain sub where r: "resolveIfRef spec (snd (snd t)) = Inr sub"
    and a: "mutateWithOpenapiSchemaProperties fuel spec models (fst t) (fst (snd t)) sub
              (st\<lparr>ms_visited := ident # ms_visited st,
                  ms_enriched := ms_enriched st @ [ident]\<rparr>) = Inr b"
    by (auto split: sum.splits)
  from meta_visited_partial(1) [OF d [OF Some r] a] show ?thesis by simp
qed

lemma mutateWithOpenapiSchemaProperties_total:
  "All mutateWithOpenapiSchemaProperties_mutateProperties_mutateBranches_dom"
proof (rule "mutateWithOpenapiSchemaProperties_mutateProperties_mutateBranches.termination"
         [of "inv_image (less_than <*lex*> less_than) metaMeasure"], goal_cases)
  case 1
  show ?case by (intro wf_inv_image wf_lex_prod wf_less_than)
next
  case (2 fuel spec models ident model schema st ty t sub)
  from pending_descend [OF 2(2)] show ?case by (simp only: in_inv_image metaMeasure.simps) simp
next
  case (3 fuel spec models ident model schema st ty b)
  have sub: "set (ident # ms_visited st) \<subseteq> set (ms_visited b)"
    by (rule meta_first_visited [OF 3(2) 3(3)])
  from pending_body [OF sub weight_selected]
  show ?case by (simp only: in_inv_image metaMeasure.simps)
next
  case (4 fuel spec models ident model schema st ty b ba)
  have sub: "set (ident # ms_visited st) \<subseteq> set (ms_visited b)"
    by (rule meta_first_visited [OF 4(2) 4(6)])
  have "set (ms_visited b) \<subseteq> set (ms_visited ba)"
    by (rule meta_visited_partial(2) [OF 4(5) 4(3)])
  with sub have sub': "set (ident # ms_visited st) \<subseteq> set (ms_visited ba)" by blast
  have w: "weight (propertyIdents ident (mn_properties model)) < size model"
    by (simp add: weight_propertyIdents size_properties)
  from pending_body [OF sub' w]
  show ?case by (simp only: in_inv_image metaMeasure.simps)
next
  case (5 fuel spec models schema p ps st)
  from pending_rest [OF subset_refl] show ?case by (simp only: in_inv_image metaMeasure.simps)
next
  case (6 fuel spec models schema p ps st sub b)
  from pending_enter show ?case by (simp only: in_inv_image metaMeasure.simps)
next
  case (7 fuel spec models schema p ps st sub b ba)
  have "set (ms_visited st) \<subseteq> set (ms_visited ba)"
    using meta_visited_partial(1) [OF 7(4) 7(3)] by simp
  from pending_rest [OF this] show ?case by (simp only: in_inv_image metaMeasure.simps)
next
  case (8 fuel spec models schema export i p ps st)
  from pending_rest [OF subset_refl] show ?case by (simp only: in_inv_image metaMeasure.simps)
next
  case (9 fuel spec models schema export i p ps st sub b)
  from pending_enter show ?case by (simp only: in_inv_image metaMeasure.simps)
next
  case (10 fuel spec models schema export i p ps st sub b ba)
  have "set (ms_visited st) \<subseteq> set (ms_visited ba)"
    using meta_visited_partial(1) [OF 10(4) 10(3)] by simp
  from pending_rest [OF this] show ?case by (simp only: in_inv_image metaMeasure.simps)
qed

termination mutateWithOpenapiSchemaProperties
  by (rule mutateWithOpenapiSchemaProperties_total)

declare mutateWithOpenapiSchemaProperties.simps [simp del]

text \<open>
  The loop of \<open>buildData\<close> over \<open>data.models\<close>: each model that has a schema of its name
  starts a walk with a set \<open>visited\<close> of its own, and then each of its properties that has
  a schema of its name in that schema starts one more and, with or without a walk, is
  given its types by \<open>mutateModelWithAdditionalTypes\<close>. The two tests read the names as
  they are at that moment, trimmed for a model that has been given its metadata.
\<close>

definition currentName :: "ident list \<Rightarrow> ident \<Rightarrow> mnode \<Rightarrow> string" where
  "currentName enriched ident m =
     (if ident \<in> set enriched then trimQuotes (mn_name m) else mn_name m)"

fun augmentProperties ::
  "nat \<Rightarrow> spec_get \<Rightarrow> mnode list \<Rightarrow> schema \<Rightarrow> (ident \<times> mnode) list \<Rightarrow> ident list
     \<Rightarrow> halt + ident list" where
  "augmentProperties fuel spec models specModel [] enriched = Inr enriched"
| "augmentProperties fuel spec models specModel (p # ps) enriched =
     (case (case schemaProperty specModel (currentName enriched (fst p) (snd p)) of
              None \<Rightarrow> Inr enriched
            | Some s \<Rightarrow>
                (case resolveIfRef spec s of
                   Inl e \<Rightarrow> Inl (Throws e)
                 | Inr specProperty \<Rightarrow>
                     (case mutateWithOpenapiSchemaProperties fuel spec models (fst p) (snd p)
                             specProperty \<lparr>ms_visited = [], ms_enriched = enriched\<rparr> of
                        Inl e \<Rightarrow> Inl e
                      | Inr st \<Rightarrow> Inr (ms_enriched st)))) of
        Inl e \<Rightarrow> Inl e
      | Inr enriched' \<Rightarrow>
          (case mutateModelWithAdditionalTypes fuel models (snd p) of
             None \<Rightarrow> Inl OutOfFuel
           | Some ty \<Rightarrow> augmentProperties fuel spec models specModel ps enriched'))"

fun augmentModels ::
  "nat \<Rightarrow> spec_get \<Rightarrow> mnode list \<Rightarrow> nat \<Rightarrow> mnode list \<Rightarrow> ident list
     \<Rightarrow> halt + ident list" where
  "augmentModels fuel spec models k [] enriched = Inr enriched"
| "augmentModels fuel spec models k (m # rest) enriched =
     (case spec [''components'', ''schemas'', currentName enriched (k, []) m] of
        None \<Rightarrow> augmentModels fuel spec models (Suc k) rest enriched
      | Some s \<Rightarrow>
          (case resolveIfRef spec s of
             Inl e \<Rightarrow> Inl (Throws e)
           | Inr specModel \<Rightarrow>
               (case mutateWithOpenapiSchemaProperties fuel spec models (k, []) m specModel
                       \<lparr>ms_visited = [], ms_enriched = enriched\<rparr> of
                  Inl e \<Rightarrow> Inl e
                | Inr st \<Rightarrow>
                    (case augmentProperties fuel spec models specModel
                            (propertyIdents (k, []) (mn_properties m)) (ms_enriched st) of
                       Inl e \<Rightarrow> Inl e
                     | Inr enriched' \<Rightarrow>
                         augmentModels fuel spec models (Suc k) rest enriched'))))"

definition augmentAllModels :: "nat \<Rightarrow> spec_get \<Rightarrow> mnode list \<Rightarrow> halt + ident list" where
  "augmentAllModels fuel spec models = augmentModels fuel spec models 0 models []"

text \<open>
  The models as the link pass leaves them: the links that it has set are put at their
  places. It sets a link only where there was none.
\<close>

fun relink :: "(ident \<rightharpoonup> nat) \<Rightarrow> ident \<Rightarrow> mnode \<Rightarrow> mnode"
  and relinkLink :: "(ident \<rightharpoonup> nat) \<Rightarrow> ident \<Rightarrow> mlink \<Rightarrow> mlink"
  and relinkProperties :: "(ident \<rightharpoonup> nat) \<Rightarrow> ident \<Rightarrow> nat \<Rightarrow> mnode list \<Rightarrow> mnode list" where
  "relink links ident (MNode n e l ps) =
     MNode n e
       (case links ident of Some j \<Rightarrow> Top j | None \<Rightarrow> relinkLink links ident l)
       (relinkProperties links ident 0 ps)"
| "relinkLink links ident NoLink = NoLink"
| "relinkLink links ident (Top j) = Top j"
| "relinkLink links ident (Inline c) = Inline (relink links (fst ident, snd ident @ [None]) c)"
| "relinkProperties links ident k [] = []"
| "relinkProperties links ident k (p # ps) =
     relink links (fst ident, snd ident @ [Some k]) p # relinkProperties links ident (Suc k) ps"

fun relinkModels :: "(ident \<rightharpoonup> nat) \<Rightarrow> nat \<Rightarrow> mnode list \<Rightarrow> mnode list" where
  "relinkModels links k [] = []"
| "relinkModels links k (m # ms) = relink links (k, []) m # relinkModels links (Suc k) ms"

text \<open>
  The two passes one after the other, as \<open>buildData\<close> runs them on the models. The result
  is \<open>None\<close> when the fuel did not suffice for a projection, the error when one was thrown,
  and else the models that were given their metadata, in order.
\<close>

definition linkAndAugment ::
  "nat \<Rightarrow> spec_get \<Rightarrow> mnode list \<Rightarrow> (mnode \<times> schema option) list \<Rightarrow> (string + ident list) option" where
  "linkAndAugment fuel spec models parameters =
     (case ensureModelLinks spec models parameters of
        Inl e \<Rightarrow> Some (Inl e)
      | Inr st \<Rightarrow>
          (case augmentAllModels fuel spec (relinkModels (ls_links st) 0 models) of
             Inl OutOfFuel \<Rightarrow> None
           | Inl (Throws e) \<Rightarrow> Some (Inl e)
           | Inr enriched \<Rightarrow> Some (Inr enriched)))"

text \<open>
  The example of the cycle, as the models loop finds it: \<open>CycleArrayNode\<close> is an object
  whose property \<open>nodes\<close> is an array of \<open>CycleArrayNode\<close> (\<open>buildData\<close> puts the array
  schema in the place of a reference to it before the models are made); and a model with
  one property and no cycle.
\<close>

definition plainSchema :: "string option \<Rightarrow> schema" where
  "plainSchema ty = Schema ty None None None None None None None None None False"

definition cycleSchemas :: "(string \<times> schema) list" where
  "cycleSchemas =
     [(''CycleArrayNode'',
       Schema (Some ''object'') None None None None None None None
         (Some [(''nodes'',
                 Schema (Some ''array'') None None None None None None
                   (Some (Ref ''#/components/schemas/CycleArrayNode'')) None None False)])
         None False)]"

definition cycleModels :: "mnode list" where
  "cycleModels =
     [MNode ''CycleArrayNode'' ''interface'' NoLink [MNode ''nodes'' ''array'' NoLink []]]"

definition someObjectSchemas :: "(string \<times> schema) list" where
  "someObjectSchemas =
     [(''SomeObject'',
       Schema (Some ''object'') None None None None None None None
         (Some [(''a'', plainSchema (Some ''string''))]) None False)]"

definition someObjectModels :: "mnode list" where
  "someObjectModels = [MNode ''SomeObject'' ''interface'' NoLink [MNode ''a'' ''generic'' NoLink []]]"

text \<open>
  A dictionary of itself: the values of \<open>Dict\<close> are \<open>Dict\<close> again. The parser gives a
  model that is a dictionary without a link.
\<close>

definition dictSchemas :: "(string \<times> schema) list" where
  "dictSchemas =
     [(''Dict'',
       Schema (Some ''object'') None None None None None None None None
         (Some (ASchema (Ref ''#/components/schemas/Dict''))) False)]"

definition dictModels :: "mnode list" where
  "dictModels = [MNode ''Dict'' ''dictionary'' NoLink []]"

section \<open>Properties of the walks\<close>

text \<open>Trimming a trimmed name changes nothing, so the walks read the same name each time.\<close>

lemma trimQuotes_idem: "trimQuotes (trimQuotes s) = trimQuotes s"
proof -
  define t where "t = dropWhile isQuote s"
  define u where "u = dropWhile isQuote (rev t)"
  have a: "dropWhile isQuote (rev u) = rev u"
  proof (cases "u = []")
    case True
    then show ?thesis by simp
  next
    case False
    then have t: "t \<noteq> []" by (auto simp: u_def)
    have "rev t = takeWhile isQuote (rev t) @ u" by (simp add: u_def)
    with False have "last u = last (rev t)" by (metis last_appendR)
    also have "\<dots> = hd t" using t by (simp add: last_rev)
    finally have "last u = hd t" .
    moreover have "\<not> isQuote (hd t)" using t unfolding t_def by (rule hd_dropWhile)
    ultimately have "\<not> isQuote (hd (rev u))" using False by (simp add: hd_rev)
    then show ?thesis by (simp add: dropWhile_eq_self_iff)
  qed
  have "dropWhile isQuote u = u" by (simp add: u_def)
  with a show ?thesis by (simp add: trimQuotes_def t_def [symmetric] u_def [symmetric])
qed

lemma ensureCompositeModels_distinct:
  assumes "ensureCompositeModels ms = Inr st"
  shows "distinct (cs_entered st)"
  using ensure_success [OF assms] by (simp add: extends_def)

text \<open>
  The projection of a dictionary whose link is the dictionary itself: whatever the fuel,
  it does not suffice.
\<close>

lemma typeShape_self:
  "typeShape fuel [MNode ''Dict'' ''dictionary'' (Top 0) []] (MNode ''Dict'' ''dictionary'' (Top 0) [])
   = None"
  by (induction fuel) (simp_all add: linkModel_def)

lemma dict_links:
  "(case ensureModelLinks (specOf dictSchemas) dictModels [] of
      Inl e \<Rightarrow> False
    | Inr st \<Rightarrow> ls_links st (0, []) = Some 0 \<and> ls_entered st = [(0, [])])"
  by code_simp

lemma dict_augment:
  "augmentAllModels fuel (specOf dictSchemas) [MNode ''Dict'' ''dictionary'' (Top 0) []]
   = Inl OutOfFuel"
proof -
  have s: "specOf dictSchemas [''components'', ''schemas'', ''Dict'']
           = Some (Schema (Some ''object'') None None None None None None None None
                     (Some (ASchema (Ref ''#/components/schemas/Dict''))) False)"
    by (simp add: specOf_def dictSchemas_def)
  show ?thesis
    by (simp add: augmentAllModels_def currentName_def s resolveIfRef_def
          mutateWithOpenapiSchemaProperties.simps mutateModelWithAdditionalTypes_def
          typeShape_self)
qed

text \<open>
  Claim C4 at a dictionary of itself, and at the cycle of the example. For the schema
  \<open>Dict\<close> whose values are \<open>Dict\<close> again the link pass returns, having entered the one
  model once and made it its own link; the metadata pass then does not return, whatever
  the fuel: the projections of \<open>mutateModelWithAdditionalTypes\<close> follow the link with no
  set \<open>visited\<close>. For \<open>CycleArrayNode\<close>, whose cycle goes through a property, the pass
  returns, and has given both models their metadata twice: the walk from
  \<open>CycleArrayNode\<close> reaches \<open>nodes\<close>, and the loop over the properties starts a walk at
  \<open>nodes\<close> with an empty set, which goes back through the link. Without any cycle, the
  one property of \<open>SomeObject\<close> is given its metadata twice.
\<close>

theorem metadata_pass_self_link:
  "(case ensureModelLinks (specOf dictSchemas) dictModels [] of
      Inl e \<Rightarrow> False
    | Inr st \<Rightarrow> ls_links st (0, []) = Some 0 \<and> ls_entered st = [(0, [])])
   \<and> linkAndAugment fuel (specOf dictSchemas) dictModels [] = None
   \<and> linkAndAugment 2 (specOf cycleSchemas) cycleModels []
     = Some (Inr [(0, []), (0, [Some 0]), (0, [Some 0]), (0, [])])
   \<and> linkAndAugment 1 (specOf someObjectSchemas) someObjectModels []
     = Some (Inr [(0, []), (0, [Some 0]), (0, [Some 0])])"
proof -
  from dict_links obtain st where
    l: "ensureModelLinks (specOf dictSchemas) dictModels [] = Inr st"
    and k: "ls_links st (0, []) = Some 0"
    by (cases "ensureModelLinks (specOf dictSchemas) dictModels []") auto
  from k have "relinkModels (ls_links st) 0 dictModels = [MNode ''Dict'' ''dictionary'' (Top 0) []]"
    by (simp add: dictModels_def)
  with l have 1: "linkAndAugment fuel (specOf dictSchemas) dictModels [] = None"
    by (simp add: linkAndAugment_def dict_augment)
  have 2: "linkAndAugment 2 (specOf cycleSchemas) cycleModels []
           = Some (Inr [(0, []), (0, [Some 0]), (0, [Some 0]), (0, [])])"
    by code_simp
  have 3: "linkAndAugment 1 (specOf someObjectSchemas) someObjectModels []
           = Some (Inr [(0, []), (0, [Some 0]), (0, [Some 0])])"
    by code_simp
  from dict_links 1 2 3 show ?thesis by simp
qed

end
